theory Spec2Isabelle
  imports Main "HOL-Library.Monad_Syntax" "HOL-Library.Multiset"
begin

unbundle bit_operations_syntax

section \<open>Data model (structs.h)\<close>

text \<open>
  The error codes are the negative sentinel integers of \<^verbatim>\<open>structs.h\<close>; the hurdle
  flags are a bit mask.
\<close>

definition ERR_CONTENT :: int where "ERR_CONTENT = - 1"
definition ERR_DUPLICATES :: int where "ERR_DUPLICATES = - 2"
definition ERR_CIRCULAR :: int where "ERR_CIRCULAR = - 3"
definition ERR_MULTICHR :: int where "ERR_MULTICHR = - 4"
definition ERR_NOTIMPL :: int where "ERR_NOTIMPL = - 5"

definition HURDLE :: int where "HURDLE = 1"
definition GREATHURDLE :: int where "GREATHURDLE = push_bit 1 1"
definition SUPERHURDLE :: int where "SUPERHURDLE = push_bit 2 1"

text \<open>
  \<^verbatim>\<open>typedef short intArray\<close>: a gene is a 16-bit signed integer. Genes are modelled as
  \<open>int\<close>; \<open>short_range\<close> is the range of the type and \<open>to_short\<close> the conversion
  of an \<open>int\<close> back to \<open>short\<close> (two's complement wrap-around), which
  \<^verbatim>\<open>push_back(abs(...))\<close> performs.
\<close>

type_synonym intArray = "int list"

definition short_range :: "int \<Rightarrow> bool" where
  "short_range x \<longleftrightarrow> - 32768 \<le> x \<and> x \<le> 32767"

definition to_short :: "int \<Rightarrow> int" where
  "to_short x = (x + 32768) mod 65536 - 32768"

text \<open>
  \<^verbatim>\<open>struct Genome { intArray * pi; bool circular; int len; }\<close>. The array and its length
  are single list; \<open>len\<close> is its length. A \<^verbatim>\<open>Genome *\<close> argument (a genome set) is a list
  of genomes.
\<close>

record Genome =
  pi :: intArray
  circular :: bool

definition len :: "Genome \<Rightarrow> int" where
  "len g = int (length (pi g))"

text \<open>
  Reading an array out of its bounds, and reading a cell that was never written
  (\<^verbatim>\<open>new int[n]\<close> does not initialise), is undefined behaviour: the model returns
  \<open>None\<close>. A scratch buffer is a list of cells, \<open>None\<close> for a cell not yet written.
\<close>

definition at :: "'a list \<Rightarrow> int \<Rightarrow> 'a option" where
  "at xs k = (if 0 \<le> k \<and> k < int (length xs) then Some (xs ! nat k) else None)"

type_synonym buf = "int option list"

definition rd :: "buf \<Rightarrow> int \<Rightarrow> int option" where
  "rd b k = (if 0 \<le> k \<and> k < int (length b) then b ! nat k else None)"

definition wr :: "buf \<Rightarrow> int \<Rightarrow> int \<Rightarrow> buf option" where
  "wr b k v = (if 0 \<le> k \<and> k < int (length b) then Some (b[nat k := Some v]) else None)"

record component_t =
  index :: "int option"
  oriented_c :: "int option"
  blocks :: "int option"
  hurdle :: "int option"
  left :: "int option"
  right :: "int option"

text \<open>Reading and writing single field of \<^verbatim>\<open>components[k]\<close>.\<close>

definition fld :: "component_t list \<Rightarrow> int \<Rightarrow> (component_t \<Rightarrow> int option) \<Rightarrow> int option" where
  "fld cs k f = (if 0 \<le> k \<and> k < int (length cs) then f (cs ! nat k) else None)"

definition upd :: "component_t list \<Rightarrow> int \<Rightarrow> (component_t \<Rightarrow> component_t) \<Rightarrow> component_t list option" where
  "upd cs k f = (if 0 \<le> k \<and> k < int (length cs) then Some (cs[nat k := f (cs ! nat k)]) else None)"

record distmem =
  perm1 :: buf
  perm2 :: buf
  perm :: buf
  done_buf :: buf
  greyEdges :: buf
  stack :: buf
  oriented :: buf
  cc :: buf
  labeled :: buf
  components :: "component_t list"

definition distmem_struct :: "int \<Rightarrow> distmem" where
  "distmem_struct n =
     \<lparr> perm1 = replicate (nat n) None, perm2 = replicate (nat n) None,
       perm = replicate (nat n) None, done_buf = replicate (nat n) None,
       greyEdges = replicate (nat n) None, stack = replicate (nat n) None,
       oriented = replicate (nat n) None, cc = replicate (nat n) None,
       labeled = replicate (nat n) None,
       components = replicate (nat n)
         \<lparr> index = None, oriented_c = None, blocks = None, hurdle = None,
           left = None, right = None \<rparr> \<rparr>"

section \<open>Control structure\<close>

text \<open>
  \<^verbatim>\<open>for (i = lo; i < hi; i += step) body\<close> over a state; a body that runs into undefined
  behaviour ends the loop with \<open>None\<close>. The second form is a loop whose body may
  \<^verbatim>\<open>return\<close> from the enclosing function (\<open>Inl\<close>).
\<close>

function for_loop :: "int \<Rightarrow> int \<Rightarrow> int \<Rightarrow> (int \<Rightarrow> 's \<Rightarrow> 's option) \<Rightarrow> 's \<Rightarrow> 's option" where
  "for_loop i hi step body s =
     (if i < hi \<and> 0 < step then
        (case body i s of None \<Rightarrow> None | Some s' \<Rightarrow> for_loop (i + step) hi step body s')
      else Some s)"
  by pat_completeness auto
termination
  by (relation "measure (\<lambda>(i, hi, step, body, s). nat (hi - i))") auto

function for_loop_ret :: "int \<Rightarrow> int \<Rightarrow> (int \<Rightarrow> 's \<Rightarrow> ('r + 's) option) \<Rightarrow> 's \<Rightarrow> ('r + 's) option" where
  "for_loop_ret i hi body s =
     (if i < hi then
        (case body i s of
           None \<Rightarrow> None
         | Some (Inl r) \<Rightarrow> Some (Inl r)
         | Some (Inr s') \<Rightarrow> for_loop_ret (i + 1) hi body s')
      else Some (Inr s))"
  by pat_completeness auto
termination
  by (relation "measure (\<lambda>(i, hi, body, s). nat (hi - i))") auto

text \<open>The remainder of C's integer division truncates towards zero.\<close>

definition c_mod :: "int \<Rightarrow> int \<Rightarrow> int" where
  "c_mod a b = sgn a * (\<bar>a\<bar> mod \<bar>b\<bar>)"

section \<open>invdist.cpp\<close>

subsection \<open>calculate\_offset\<close>

definition calculate_offset :: "Genome list \<Rightarrow> Genome list \<Rightarrow> int option" where
  "calculate_offset g1 g2 = do {
     b \<leftarrow> at g2 0;
     let genes2 = pi b;
     let num_genes = len b;
     a \<leftarrow> at g1 0;
     gA \<leftarrow> at (pi a) 0;
     r \<leftarrow> for_loop_ret 0 num_genes (\<lambda>i (u::unit). do {
            x \<leftarrow> at genes2 i;
            if x = gA then Some (Inl i)
            else if x = - gA then Some (Inl (i + num_genes))
            else Some (Inr ()) }) ();
     Some (case r of Inl k \<Rightarrow> k | Inr u \<Rightarrow> ERR_CONTENT) }"

subsection \<open>num\_breakpoints\<close>

definition num_breakpoints :: "buf \<Rightarrow> int \<Rightarrow> int option" where
  "num_breakpoints p sz = do {
     p1 \<leftarrow> rd p 1;
     for_loop 2 (sz - 1) 2 (\<lambda>i b. do {
        pA \<leftarrow> rd p i;
        let pA1 = (if pA = sz then 1 else pA + 1);
        pB \<leftarrow> rd p (i + 1);
        let pB1 = (if pB = sz then 1 else pB + 1);
        Some (if pB \<noteq> pA1 \<and> pA \<noteq> pB1 then b + 1 else b) })
       (if p1 \<noteq> 1 then 1 else 0) }"

subsection \<open>num\_cycles\<close>

text \<open>
  \<^verbatim>\<open>invperm\<close> and \<^verbatim>\<open>done\<close> are the same buffer (\<^verbatim>\<open>distmem->done\<close>), \<^verbatim>\<open>cycle\<close> is
  \<^verbatim>\<open>distmem->labeled\<close>, and \<^verbatim>\<open>perm\<close> is \<^verbatim>\<open>distmem->perm\<close>.
\<close>

definition invperm_step :: "int \<Rightarrow> distmem \<Rightarrow> distmem option" where
  "invperm_step i dm = do {
     p \<leftarrow> rd (perm dm) i;
     inv \<leftarrow> wr (done_buf dm) p i;
     g \<leftarrow> wr (greyEdges dm) i (- 1);
     Some (dm\<lparr>done_buf := inv, greyEdges := g\<rparr>) }"

definition grey_step :: "int \<Rightarrow> distmem \<Rightarrow> distmem option" where
  "grey_step i dm = do {
     ind \<leftarrow> rd (perm dm) i;
     p \<leftarrow> rd (perm dm) (i + 1);
     (j1, j2) \<leftarrow>
       (if ind < p then do {
          a \<leftarrow> rd (done_buf dm) (ind - 1);
          b \<leftarrow> rd (done_buf dm) (ind + 2);
          Some (a, b) }
        else do {
          a \<leftarrow> rd (done_buf dm) (ind + 1);
          b \<leftarrow> rd (done_buf dm) (ind - 2);
          Some (a, b) });
     g \<leftarrow> (if j1 \<noteq> i - 1 then wr (greyEdges dm) i j1 else Some (greyEdges dm));
     g \<leftarrow> (if j2 \<noteq> i + 2 then wr g (i + 1) j2 else Some g);
     Some (dm\<lparr>greyEdges := g\<rparr>) }"

definition done_clear_step :: "int \<Rightarrow> distmem \<Rightarrow> distmem option" where
  "done_clear_step i dm = do {
     d \<leftarrow> wr (done_buf dm) i 0;
     Some (dm\<lparr>done_buf := d\<rparr>) }"

text \<open>The \<^verbatim>\<open>do ... while (next != i)\<close> loop: it may run forever, which is \<open>None\<close>.\<close>

partial_function (option) cycle_walk :: "int \<Rightarrow> int \<Rightarrow> distmem \<Rightarrow> distmem option" where
  "cycle_walk i nxt dm = do {
     let nxt1 = (if c_mod nxt 2 = 0 then nxt + 1 else nxt - 1);
     d \<leftarrow> wr (done_buf dm) nxt1 1;
     l \<leftarrow> wr (labeled dm) nxt1 i;
     nxt2 \<leftarrow> rd (greyEdges dm) nxt1;
     d \<leftarrow> wr d nxt2 1;
     l \<leftarrow> wr l nxt2 i;
     if nxt2 \<noteq> i then cycle_walk i nxt2 (dm\<lparr>done_buf := d, labeled := l\<rparr>)
     else Some (dm\<lparr>done_buf := d, labeled := l\<rparr>) }"

declare cycle_walk.simps [code]

definition cycle_step :: "int \<Rightarrow> int \<times> distmem \<Rightarrow> (int \<times> distmem) option" where
  "cycle_step i = (\<lambda>(c, dm). do {
     d \<leftarrow> rd (done_buf dm) i;
     go \<leftarrow> (if d = 0 then do { g \<leftarrow> rd (greyEdges dm) i; Some (g \<noteq> - 1) } else Some False);
     if go then do {
       l \<leftarrow> wr (labeled dm) i i;
       d \<leftarrow> wr (done_buf dm) i 1;
       dm \<leftarrow> cycle_walk i i (dm\<lparr>labeled := l, done_buf := d\<rparr>);
       Some (c + 1, dm) }
     else Some (c, dm) })"

definition num_cycles :: "int \<Rightarrow> distmem \<Rightarrow> (int \<times> distmem) option" where
  "num_cycles sz dm = do {
     dm \<leftarrow> for_loop 0 sz 1 invperm_step dm;
     j1 \<leftarrow> rd (done_buf dm) 1;
     dm \<leftarrow> (if j1 \<noteq> 1 then do { g \<leftarrow> wr (greyEdges dm) 0 j1; Some (dm\<lparr>greyEdges := g\<rparr>) }
            else Some dm);
     dm \<leftarrow> for_loop 1 (sz - 1) 2 grey_step dm;
     j1 \<leftarrow> rd (done_buf dm) (sz - 2);
     dm \<leftarrow> (if j1 \<noteq> sz - 2 then do {
               g \<leftarrow> wr (greyEdges dm) (sz - 1) j1; Some (dm\<lparr>greyEdges := g\<rparr>) }
            else Some dm);
     dm \<leftarrow> for_loop 0 sz 1 done_clear_step dm;
     for_loop 0 sz 1 cycle_step (0, dm) }"

subsection \<open>connected\_component\<close>

text \<open>
  Aliases: \<^verbatim>\<open>next\<close> and \<^verbatim>\<open>stack_root\<close> are \<^verbatim>\<open>distmem->stack\<close>; \<^verbatim>\<open>range\<close> is
  \<^verbatim>\<open>distmem->oriented\<close>; \<^verbatim>\<open>stack_range\<close> and \<^verbatim>\<open>cc\<close> are \<^verbatim>\<open>distmem->cc\<close>; \<^verbatim>\<open>parent\<close>
  and \<^verbatim>\<open>cycle\<close> are \<^verbatim>\<open>distmem->labeled\<close>.
\<close>

definition range_step :: "int \<Rightarrow> distmem \<Rightarrow> distmem option" where
  "range_step i dm = do {
     g \<leftarrow> rd (greyEdges dm) i;
     if g = - 1 then Some dm
     else do {
       c \<leftarrow> rd (labeled dm) i;
       r \<leftarrow> wr (oriented dm) c i;
       Some (dm\<lparr>oriented := r\<rparr>) } }"

text \<open>
  \<^verbatim>\<open>while (stack_root[stack_ptr] > parent[i])\<close>: the state is \<open>(right, stack_ptr)\<close> and
  the memory. The stack pointer decreases, and reading below the stack is out of bounds.
\<close>

function pop_loop :: "int \<Rightarrow> int \<Rightarrow> int \<Rightarrow> distmem \<Rightarrow> (int \<times> int \<times> distmem) option" where
  "pop_loop i rght stack_ptr dm =
     (case rd (stack dm) stack_ptr of
        None \<Rightarrow> None
      | Some tp \<Rightarrow>
         (case rd (labeled dm) i of
            None \<Rightarrow> None
          | Some p \<Rightarrow>
             if tp > p then
               (case wr (labeled dm) tp p of
                  None \<Rightarrow> None
                | Some l \<Rightarrow>
                   (case rd (cc dm) stack_ptr of
                      None \<Rightarrow> None
                    | Some sr \<Rightarrow>
                       pop_loop i (if rght < sr then sr else rght) (stack_ptr - 1)
                         (dm\<lparr>labeled := l\<rparr>)))
             else Some (rght, stack_ptr, dm)))"
  by pat_completeness auto
termination
  by (relation "measure (\<lambda>(i, rght, stack_ptr, dm). nat (stack_ptr + 1))")
     (auto simp: rd_def split: if_splits)

definition scan_step :: "int \<Rightarrow> int \<times> int \<times> distmem \<Rightarrow> (int \<times> int \<times> distmem) option" where
  "scan_step i = (\<lambda>(stack_ptr, num_components, dm). do {
     g \<leftarrow> rd (greyEdges dm) i;
     if g = - 1 then Some (stack_ptr, num_components, dm)
     else do {
       p \<leftarrow> rd (labeled dm) i;
       if p = i then do {
         st \<leftarrow> wr (stack dm) (stack_ptr + 1) i;
         r \<leftarrow> rd (oriented dm) i;
         sr \<leftarrow> wr (cc dm) (stack_ptr + 1) r;
         Some (stack_ptr + 1, num_components, dm\<lparr>stack := st, cc := sr\<rparr>) }
       else do {
         (rght, stack_ptr, dm) \<leftarrow> pop_loop i i stack_ptr dm;
         sr \<leftarrow> rd (cc dm) stack_ptr;
         dm \<leftarrow> (if sr < rght then do { c \<leftarrow> wr (cc dm) stack_ptr rght; Some (dm\<lparr>cc := c\<rparr>) }
                else Some dm);
         sr \<leftarrow> rd (cc dm) stack_ptr;
         if sr \<le> i then do {
           root \<leftarrow> rd (stack dm) stack_ptr;
           cs \<leftarrow> upd (components dm) num_components (\<lambda>c. c\<lparr>index := Some root\<rparr>);
           Some (stack_ptr - 1, num_components + 1, dm\<lparr>components := cs\<rparr>) }
         else Some (stack_ptr, num_components, dm) } } })"

definition next_clear_step :: "int \<Rightarrow> distmem \<Rightarrow> distmem option" where
  "next_clear_step i dm = do {
     s \<leftarrow> wr (stack dm) i (- 1);
     Some (dm\<lparr>stack := s\<rparr>) }"

definition link_step :: "int \<Rightarrow> distmem \<Rightarrow> distmem option" where
  "link_step i dm = do {
     g \<leftarrow> rd (greyEdges dm) i;
     if g = - 1 then do { c \<leftarrow> wr (cc dm) i (- 1); Some (dm\<lparr>cc := c\<rparr>) }
     else do {
       p \<leftarrow> rd (labeled dm) i;
       if i \<noteq> p then do {
         nx \<leftarrow> rd (stack dm) p;
         s \<leftarrow> wr (stack dm) i nx;
         s \<leftarrow> wr s p i;
         Some (dm\<lparr>stack := s\<rparr>) }
       else Some dm } }"

text \<open>\<^verbatim>\<open>while (p != -1)\<close> follows the linked list; a cyclic list never ends (\<open>None\<close>).\<close>

partial_function (option) label_walk :: "int \<Rightarrow> int \<Rightarrow> distmem \<Rightarrow> distmem option" where
  "label_walk i p dm =
     (if p \<noteq> - 1 then do {
        c \<leftarrow> wr (cc dm) p i;
        nx \<leftarrow> rd (stack dm) p;
        label_walk i nx (dm\<lparr>cc := c\<rparr>) }
      else Some dm)"

declare label_walk.simps [code]

definition label_step :: "int \<Rightarrow> distmem \<Rightarrow> distmem option" where
  "label_step i dm = do {
     p \<leftarrow> fld (components dm) i index;
     label_walk i p dm }"

definition connected_component :: "int \<Rightarrow> distmem \<Rightarrow> (int \<times> distmem) option" where
  "connected_component sz dm = do {
     dm \<leftarrow> for_loop 0 sz 1 range_step dm;
     (stack_ptr, num_components, dm) \<leftarrow> for_loop 0 sz 1 scan_step (- 1, 0, dm);
     dm \<leftarrow> for_loop 0 sz 1 next_clear_step dm;
     dm \<leftarrow> for_loop 0 sz 1 link_step dm;
     dm \<leftarrow> for_loop 0 num_components 1 label_step dm;
     Some (num_components, dm) }"

subsection \<open>num\_hurdles\_and\_fortress\<close>

definition orient_step :: "int \<Rightarrow> distmem \<Rightarrow> distmem option" where
  "orient_step i dm = do {
     j \<leftarrow> rd (greyEdges dm) i;
     if j = - 1 then do { ov \<leftarrow> wr (oriented dm) i 0; Some (dm\<lparr>oriented := ov\<rparr>) }
     else if i < j then
       (if c_mod (j - i) 2 \<noteq> 0 then do {
          ov \<leftarrow> wr (oriented dm) i 0;
          ov \<leftarrow> wr ov j 0;
          Some (dm\<lparr>oriented := ov\<rparr>) }
        else do {
          ov \<leftarrow> wr (oriented dm) i 1;
          ov \<leftarrow> wr ov j 1;
          Some (dm\<lparr>oriented := ov\<rparr>) })
     else Some dm }"

definition comp_unoriented_step :: "int \<Rightarrow> distmem \<Rightarrow> distmem option" where
  "comp_unoriented_step i dm = do {
     cs \<leftarrow> upd (components dm) i (\<lambda>c. c\<lparr>oriented_c := Some 0\<rparr>);
     Some (dm\<lparr>components := cs\<rparr>) }"

definition comp_oriented_step :: "int \<Rightarrow> distmem \<Rightarrow> distmem option" where
  "comp_oriented_step i dm = do {
     ov \<leftarrow> rd (oriented dm) i;
     if ov = 1 then do {
       k \<leftarrow> rd (cc dm) i;
       cs \<leftarrow> upd (components dm) k (\<lambda>c. c\<lparr>oriented_c := Some 1\<rparr>);
       Some (dm\<lparr>components := cs\<rparr>) }
     else Some dm }"

definition count_step :: "distmem \<Rightarrow> int \<Rightarrow> int \<Rightarrow> int option" where
  "count_step dm i num_oriented = do {
     ov \<leftarrow> fld (components dm) i oriented_c;
     Some (if ov = 0 then num_oriented + 1 else num_oriented) }"

definition comp_init_step :: "int \<Rightarrow> distmem \<Rightarrow> distmem option" where
  "comp_init_step i dm = do {
     cs \<leftarrow> upd (components dm) i
            (\<lambda>c. c\<lparr>blocks := Some 0, hurdle := Some 0, left := Some (- 1), right := Some (- 1)\<rparr>);
     Some (dm\<lparr>components := cs\<rparr>) }"

text \<open>The block scan (lines 348 to 375); the state is
  \<open>(first_comp, last_comp, num_block)\<close> and the components.\<close>

definition block_step ::
  "buf \<Rightarrow> int \<Rightarrow> int \<times> int \<times> int \<times> component_t list \<Rightarrow> (int \<times> int \<times> int \<times> component_t list) option" where
  "block_step ccb i = (\<lambda>(first_comp, last_comp, num_block, cs). do {
     cIdx \<leftarrow> rd ccb i;
     if cIdx \<noteq> - 1 then do {
       ov \<leftarrow> fld cs cIdx oriented_c;
       if ov = 0 then
         (if cIdx \<noteq> last_comp then do {
            (first_comp, cs) \<leftarrow>
              (if last_comp = - 1 then Some (cIdx, cs)
               else do {
                 cs \<leftarrow> upd cs last_comp (\<lambda>c. c\<lparr>right := Some cIdx\<rparr>);
                 cs \<leftarrow> upd cs cIdx (\<lambda>c. c\<lparr>left := Some last_comp\<rparr>);
                 Some (first_comp, cs) });
            b \<leftarrow> fld cs cIdx blocks;
            cs \<leftarrow> upd cs cIdx (\<lambda>c. c\<lparr>blocks := Some (b + 1)\<rparr>);
            Some (first_comp, cIdx, num_block + 1, cs) }
          else Some (first_comp, last_comp, num_block, cs))
       else Some (first_comp, last_comp, num_block, cs) }
     else Some (first_comp, last_comp, num_block, cs) })"

text \<open>Lines 378 to 386: components of single block are hurdles.\<close>

definition hurdle_step :: "int \<Rightarrow> int \<times> component_t list \<Rightarrow> (int \<times> component_t list) option" where
  "hurdle_step i = (\<lambda>(num_hurdles, cs). do {
     ov \<leftarrow> fld cs i oriented_c;
     single \<leftarrow> (if ov = 0 then do { b \<leftarrow> fld cs i blocks; Some (b = 1) } else Some False);
     if single then do {
       cs \<leftarrow> upd cs i (\<lambda>c. c\<lparr>hurdle := Some HURDLE\<rparr>);
       Some (num_hurdles + 1, cs) }
     else Some (num_hurdles, cs) })"

text \<open>Lines 387 to 392: the component that wraps around the ends.\<close>

definition great_hurdle ::
  "int \<Rightarrow> int \<Rightarrow> int \<times> component_t list \<Rightarrow> (int \<times> component_t list) option" where
  "great_hurdle first_comp last_comp = (\<lambda>(num_hurdles, cs).
     if first_comp = last_comp then do {
       b \<leftarrow> fld cs first_comp blocks;
       if b = 2 then do {
         cs \<leftarrow> upd cs first_comp (\<lambda>c. c\<lparr>hurdle := Some (HURDLE OR GREATHURDLE)\<rparr>);
         Some (num_hurdles + 1, cs) }
       else Some (num_hurdles, cs) }
     else Some (num_hurdles, cs))"

text \<open>Lines 397 to 422: the body of the superhurdle loop; \<open>Inl\<close> is its \<^verbatim>\<open>return\<close>.\<close>

definition superhurdle_step ::
  "int \<Rightarrow> int \<times> component_t list \<Rightarrow> (component_t list + int \<times> component_t list) option" where
  "superhurdle_step i = (\<lambda>(num_superhurdles, cs). do {
     h \<leftarrow> fld cs i hurdle;
     if h \<noteq> 0 then do {
       l \<leftarrow> fld cs i left;
       r \<leftarrow> fld cs i right;
       if l = r \<and> l \<noteq> - 1 then do {
         b \<leftarrow> fld cs l blocks;
         ok \<leftarrow> (if b = 2 then do { hl \<leftarrow> fld cs l hurdle; Some (hl AND GREATHURDLE = 0) }
                else Some False);
         if ok then do {
           cs \<leftarrow> upd cs i (\<lambda>c. c\<lparr>hurdle := Some (h OR SUPERHURDLE)\<rparr>);
           Some (Inr (num_superhurdles + 1, cs)) }
         else Some (Inl cs) }
       else Some (Inl cs) }
     else Some (Inr (num_superhurdles, cs)) })"

text \<open>Lines 378 to 392: the hurdles are marked and counted.\<close>

definition mark_hurdles ::
  "int \<Rightarrow> int \<Rightarrow> int \<Rightarrow> component_t list \<Rightarrow> (int \<times> component_t list) option" where
  "mark_hurdles num_components first_comp last_comp cs = do {
     (num_hurdles, cs) \<leftarrow> for_loop 0 num_components 1 hurdle_step (0, cs);
     great_hurdle first_comp last_comp (num_hurdles, cs) }"

text \<open>Lines 397 to 431: the superhurdle loop and the fortress test; the result is
  \<open>(num_hurdles, num_fortress)\<close> and the components.\<close>

definition superhurdles ::
  "int \<Rightarrow> int \<Rightarrow> component_t list \<Rightarrow> (int \<times> int \<times> component_t list) option" where
  "superhurdles num_components num_hurdles cs = do {
     r \<leftarrow> for_loop_ret 0 num_components superhurdle_step (0, cs);
     case r of
       Inl cs \<Rightarrow> Some (num_hurdles, 0, cs)
     | Inr (num_superhurdles, cs) \<Rightarrow>
         Some (num_hurdles,
               if num_hurdles = num_superhurdles \<and> c_mod num_superhurdles 2 = 1 then 1 else 0,
               cs) }"

text \<open>Lines 378 to 431, after the block scan.\<close>

definition classify ::
  "int \<Rightarrow> int \<Rightarrow> int \<Rightarrow> component_t list \<Rightarrow> (int \<times> int \<times> component_t list) option" where
  "classify num_components first_comp last_comp cs = do {
     (num_hurdles, cs) \<leftarrow> mark_hurdles num_components first_comp last_comp cs;
     if num_hurdles < 3 then Some (num_hurdles, 0, cs)
     else superhurdles num_components num_hurdles cs }"

definition num_hurdles_and_fortress :: "int \<Rightarrow> distmem \<Rightarrow> (int \<times> int \<times> distmem) option" where
  "num_hurdles_and_fortress sz dm = do {
     (num_components, dm) \<leftarrow> connected_component sz dm;
     if num_components = 0 then Some (0, 0, dm)
     else do {
       dm \<leftarrow> for_loop 0 sz 1 orient_step dm;
       dm \<leftarrow> for_loop 0 num_components 1 comp_unoriented_step dm;
       dm \<leftarrow> for_loop 0 sz 1 comp_oriented_step dm;
       num_oriented \<leftarrow> for_loop 0 num_components 1 (count_step dm) 0;
       if num_oriented = 0 then Some (0, 0, dm)
       else do {
         dm \<leftarrow> for_loop 0 num_components 1 comp_init_step dm;
         (first_comp, last_comp, num_block, cs) \<leftarrow>
           for_loop 0 sz 1 (block_step (cc dm)) (- 1, - 1, - 1, components dm);
         (num_hurdles, num_fortress, cs) \<leftarrow> classify num_components first_comp last_comp cs;
         Some (num_hurdles, num_fortress, dm\<lparr>components := cs\<rparr>) } } }"

subsection \<open>invdist\_noncircular and invdist\_circular\<close>

definition perm1_step :: "Genome list \<Rightarrow> int \<Rightarrow> distmem \<Rightarrow> distmem option" where
  "perm1_step g1 i dm = do {
     a \<leftarrow> at g1 0;
     x \<leftarrow> at (pi a) i;
     let g = 2 * x;
     let twoi = 2 * i + 1;
     if g > 0 then do {
       p \<leftarrow> wr (perm1 dm) (g - 1) twoi;
       p \<leftarrow> wr p g (twoi + 1);
       Some (dm\<lparr>perm1 := p\<rparr>) }
     else do {
       p \<leftarrow> wr (perm1 dm) (- g) twoi;
       p \<leftarrow> wr p (- g - 1) (twoi + 1);
       Some (dm\<lparr>perm1 := p\<rparr>) } }"

definition perm2_step :: "Genome list \<Rightarrow> int \<Rightarrow> int \<Rightarrow> int \<Rightarrow> distmem \<Rightarrow> distmem option" where
  "perm2_step g2 num_genes offset i dm = do {
     b \<leftarrow> at g2 0;
     g \<leftarrow> (if offset < num_genes then at (pi b) (c_mod (offset + i) num_genes)
           else do { x \<leftarrow> at (pi b) (c_mod (offset - i) num_genes); Some (- x) });
     let twoi = 2 * i + 1;
     if g > 0 then do {
       p \<leftarrow> wr (perm2 dm) twoi (2 * g - 1);
       p \<leftarrow> wr p (twoi + 1) (2 * g);
       Some (dm\<lparr>perm2 := p\<rparr>) }
     else do {
       p \<leftarrow> wr (perm2 dm) twoi (- 2 * g);
       p \<leftarrow> wr p (twoi + 1) (- 2 * g - 1);
       Some (dm\<lparr>perm2 := p\<rparr>) } }"

definition compose_step :: "int \<Rightarrow> distmem \<Rightarrow> distmem option" where
  "compose_step i dm = do {
     k \<leftarrow> rd (perm2 dm) i;
     v \<leftarrow> rd (perm1 dm) k;
     p \<leftarrow> wr (perm dm) i v;
     Some (dm\<lparr>perm := p\<rparr>) }"

text \<open>Lines 444 to 494: the extended permutation, left in \<^verbatim>\<open>distmem->perm\<close>.\<close>

definition build_perm :: "Genome list \<Rightarrow> Genome list \<Rightarrow> int \<Rightarrow> distmem option" where
  "build_perm g1 g2 offset = do {
     a \<leftarrow> at g1 0;
     let num_genes = len a;
     let n = 2 * num_genes + 2;
     dm \<leftarrow> for_loop 0 num_genes 1 (perm1_step g1) (distmem_struct n);
     dm \<leftarrow> for_loop 0 num_genes 1 (perm2_step g2 num_genes offset) dm;
     p \<leftarrow> wr (perm dm) 0 0;
     dm \<leftarrow> for_loop 1 (n - 1) 1 compose_step (dm\<lparr>perm := p\<rparr>);
     p \<leftarrow> wr (perm dm) (n - 1) (n - 1);
     Some (dm\<lparr>perm := p\<rparr>) }"

definition invdist_noncircular :: "Genome list \<Rightarrow> Genome list \<Rightarrow> int \<Rightarrow> int option" where
  "invdist_noncircular g1 g2 offset = do {
     a \<leftarrow> at g1 0;
     let n = 2 * len a + 2;
     dm \<leftarrow> build_perm g1 g2 offset;
     b \<leftarrow> num_breakpoints (perm dm) n;
     (c, dm) \<leftarrow> num_cycles n dm;
     (num_hurdles, num_fortress, dm) \<leftarrow> num_hurdles_and_fortress n dm;
     Some (b - c + num_hurdles + num_fortress) }"

definition invdist_circular :: "Genome list \<Rightarrow> Genome list \<Rightarrow> int option" where
  "invdist_circular g1 g2 = do {
     offset \<leftarrow> calculate_offset g1 g2;
     invdist_noncircular g1 g2 offset }"

section \<open>distances.cpp\<close>

text \<open>
  \<^verbatim>\<open>sizeof(pi)/sizeof(Genome * )\<close> divides the size of a pointer by the size of a
  pointer: every function takes the number of chromosomes of a genome set to be 1.
\<close>

definition num_chromosomes :: "Genome list \<Rightarrow> int" where
  "num_chromosomes g = 1"

text \<open>The two nested loops that collect \<^verbatim>\<open>abs(pi[i].pi[j])\<close> in a \<^verbatim>\<open>vector<short>\<close>.\<close>

definition abs_genes :: "Genome list \<Rightarrow> intArray option" where
  "abs_genes g =
     for_loop 0 (num_chromosomes g) 1 (\<lambda>i genes. do {
        p \<leftarrow> at g i;
        for_loop 0 (len p) 1 (\<lambda>j genes. do {
           x \<leftarrow> at (pi p) j;
           Some (genes @ [to_short \<bar>x\<bar>]) }) genes }) []"

text \<open>
  \<^verbatim>\<open>i < genes.size() - 1\<close> compares in \<^verbatim>\<open>size_t\<close> (64 bits): for an empty vector the
  bound wraps around to \<open>2 ^ 64 - 1\<close>.
\<close>

definition duplicates :: "Genome list \<Rightarrow> bool option" where
  "duplicates g = do {
     genes \<leftarrow> abs_genes g;
     let genes = sort genes;
     r \<leftarrow> for_loop_ret 0 ((int (length genes) - 1) mod 2 ^ 64) (\<lambda>i (u::unit). do {
            a \<leftarrow> at genes i;
            b \<leftarrow> at genes (i + 1);
            if a = b then Some (Inl True) else Some (Inr ()) }) ();
     Some (case r of Inl v \<Rightarrow> v | Inr u \<Rightarrow> False) }"

definition unequal_content :: "Genome list \<Rightarrow> Genome list \<Rightarrow> bool option" where
  "unequal_content g h = do {
     genesA \<leftarrow> abs_genes g;
     genesB \<leftarrow> abs_genes h;
     let genesA = sort genesA;
     let genesB = sort genesB;
     if length genesA \<noteq> length genesB then Some True
     else do {
       r \<leftarrow> for_loop_ret 0 (int (length genesA)) (\<lambda>i (u::unit). do {
              a \<leftarrow> at genesA i;
              b \<leftarrow> at genesB i;
              if a \<noteq> b then Some (Inl True) else Some (Inr ()) }) ();
       Some (case r of Inl v \<Rightarrow> v | Inr u \<Rightarrow> False) } }"

definition DCJ :: "Genome list \<Rightarrow> Genome list \<Rightarrow> int option" where
  "DCJ g h = do {
     d1 \<leftarrow> duplicates g;
     d \<leftarrow> (if d1 then Some True else duplicates h);
     if d then Some ERR_DUPLICATES
     else do {
       u \<leftarrow> unequal_content g h;
       Some (if u then ERR_CONTENT else ERR_NOTIMPL) } }"

text \<open>
  \<^verbatim>\<open>_inversions\<close>. The test \<^verbatim>\<open>num_pi == num_id == 1\<close> compares the truth value of
  \<^verbatim>\<open>num_pi == num_id\<close> with 1. In the other branch the loop returns through
  \<^verbatim>\<open>_DCJ\<close> or leaves \<^verbatim>\<open>inversions\<close> unset, and returning it is undefined.
\<close>

definition inversions :: "Genome list \<Rightarrow> Genome list \<Rightarrow> int option" where
  "inversions g h = do {
     let num_pi = num_chromosomes g;
     let num_id = num_chromosomes h;
     d1 \<leftarrow> duplicates g;
     d \<leftarrow> (if d1 then Some True else duplicates h);
     if d then Some ERR_DUPLICATES
     else do {
       u \<leftarrow> unequal_content g h;
       if u then Some ERR_CONTENT
       else if (if num_pi = num_id then 1 else 0) = (1::int) then do {
         p0 \<leftarrow> at g 0;
         if circular p0 then do {
           r \<leftarrow> invdist_circular h g;
           i0 \<leftarrow> at h 0;
           Some (r + 1 - (if circular i0 then 1 else 0)) }
         else do {
           i0 \<leftarrow> at h 0;
           if circular i0 then do {
             r \<leftarrow> invdist_circular g h;
             Some (r + 1) }
           else invdist_noncircular g h 0 } }
       else do {
         r \<leftarrow> for_loop_ret 0 (max num_pi num_id) (\<lambda>i (u::unit). do {
                p \<leftarrow> at g i;
                c \<leftarrow> (if circular p then Some True else do { q \<leftarrow> at h i; Some (circular q) });
                if c then do { v \<leftarrow> DCJ g h; Some (Inl v) } else Some (Inr ()) }) ();
         case r of Inl v \<Rightarrow> Some v | Inr u \<Rightarrow> None } } }"

text \<open>
  \<^verbatim>\<open>_breakpoints\<close>. \<open>shared\<close> is the test of a boundary \<open>(pi1, pi2)\<close> against a
  boundary \<open>(id1, id2)\<close>; the loop state is \<open>(bA, bB, bID, b)\<close>.
\<close>

definition shared :: "int \<Rightarrow> int \<Rightarrow> int \<Rightarrow> int \<Rightarrow> bool" where
  "shared pi1 pi2 id1 id2 \<longleftrightarrow> (pi1 = id1 \<and> pi2 = id2) \<or> (- pi1 = id2 \<and> - pi2 = id1)"

definition find_step :: "Genome \<Rightarrow> int \<Rightarrow> int \<Rightarrow> int \<Rightarrow> int \<Rightarrow> int option" where
  "find_step q pi1 pi2 l fnd = do {
     id1 \<leftarrow> at (pi q) l;
     id2 \<leftarrow> at (pi q) (l + 1);
     Some (if shared pi1 pi2 id1 id2 then fnd + 1 else fnd) }"

definition boundary_step ::
  "Genome \<Rightarrow> Genome list \<Rightarrow> int \<Rightarrow> int \<Rightarrow> int \<times> int \<times> int \<Rightarrow> (int \<times> int \<times> int) option" where
  "boundary_step p h i k = (\<lambda>(bA, bB, b). do {
     pi1 \<leftarrow> at (pi p) k;
     pi2 \<leftarrow> at (pi p) (k + 1);
     q \<leftarrow> at h i;
     (bB, fnd) \<leftarrow> for_loop 0 (len q - 1) 1 (\<lambda>l (bB, fnd). do {
                     fnd \<leftarrow> find_step q pi1 pi2 l fnd;
                     Some (bB + 1, fnd) }) (0, 0);
     Some (bA + 1, bB, if fnd \<noteq> 0 then b + 1 else b) })"

definition wrap_boundary ::
  "Genome \<Rightarrow> Genome list \<Rightarrow> int \<Rightarrow> int \<times> int \<times> int \<Rightarrow> (int \<times> int \<times> int) option" where
  "wrap_boundary p h i = (\<lambda>(bA, bB, b). do {
     pi1 \<leftarrow> at (pi p) (len p - 1);
     pi2 \<leftarrow> at (pi p) 0;
     q \<leftarrow> at h i;
     fnd \<leftarrow> for_loop 0 (len q - 1) 1 (find_step q pi1 pi2) 0;
     fnd \<leftarrow> (if circular q then do {
                id1 \<leftarrow> at (pi q) (len q - 1);
                id2 \<leftarrow> at (pi q) 0;
                Some (if shared pi1 pi2 id1 id2 then fnd + 1 else fnd) }
              else Some fnd);
     Some (bA + 1, bB + 1, if fnd \<noteq> 0 then b + 1 else b) })"

definition breakpoints :: "Genome list \<Rightarrow> Genome list \<Rightarrow> int option" where
  "breakpoints g h = do {
     let num_pi = num_chromosomes g;
     let num_id = num_chromosomes h;
     (bA, bB, bID, b) \<leftarrow>
       for_loop 0 num_id 1 (\<lambda>i (bA, bB, bID, b).
         for_loop 0 num_pi 1 (\<lambda>j (bA, bB, bID, b). do {
            p \<leftarrow> at g j;
            (bA, bB, b) \<leftarrow> for_loop 0 (len p - 1) 1 (boundary_step p h i) (bA, bB, b);
            (bA, bB, b) \<leftarrow> (if circular p then wrap_boundary p h i (bA, bB, b)
                            else Some (bA, bB, b));
            Some (bA, bB, bID, b) }) (bA, bB, bID + bB, b)) (0, 0, 0, 0);
     Some (if bA > bB then bA - b else bB - b) }"

section \<open>Predicates of the statements and example states\<close>

text \<open>
  The shape test of lines 402 to 407 on hurdle \<open>k\<close>: its left and right neighbours are
  the same component, which is not \<open>-1\<close>, has two blocks and is not a great hurdle.
  \<open>flag_super\<close> is \<^verbatim>\<open>hurdle |= SUPERHURDLE\<close>. \<open>scanned\<close> holds of the components
  after the block scan: the fields of the first \<open>nc\<close> components are set and their
  neighbours are \<open>-1\<close> or one of these components.
\<close>

definition shape_test :: "component_t list \<Rightarrow> nat \<Rightarrow> bool" where
  "shape_test cs k \<longleftrightarrow>
     (\<exists>l h. left (cs ! k) = Some l \<and> right (cs ! k) = Some l \<and> l \<noteq> - 1
        \<and> blocks (cs ! nat l) = Some 2
        \<and> hurdle (cs ! nat l) = Some h \<and> h AND GREATHURDLE = 0)"

definition flag_super :: "component_t \<Rightarrow> component_t" where
  "flag_super c = c\<lparr>hurdle := map_option (\<lambda>h. h OR SUPERHURDLE) (hurdle c)\<rparr>"

definition scanned :: "int \<Rightarrow> component_t list \<Rightarrow> bool" where
  "scanned nc cs \<longleftrightarrow> nc \<le> int (length cs) \<and>
     (\<forall>k. int k < nc \<longrightarrow>
        (\<exists>b h l r. blocks (cs ! k) = Some b \<and> hurdle (cs ! k) = Some h
           \<and> left (cs ! k) = Some l \<and> right (cs ! k) = Some r
           \<and> - 1 \<le> l \<and> l < nc \<and> - 1 \<le> r \<and> r < nc))"

text \<open>
  A state before line 329 with two unoriented components, met by the block scan in the
  order 0, 1, 1, 0: component 0 wraps around the ends. \<open>marking_dm1\<close> is the state
  after the initialisation loop and \<open>marking_cs\<close> the components after the block scan.
\<close>

definition comp :: "int option \<Rightarrow> int option \<Rightarrow> int option \<Rightarrow> int option \<Rightarrow> int option \<Rightarrow> int option \<Rightarrow> component_t" where
  "comp i ov b h l r = \<lparr> index = i, oriented_c = ov, blocks = b, hurdle = h, left = l, right = r \<rparr>"






text \<open>
  A genome as the types of \<^verbatim>\<open>struct Genome\<close> allow it: every gene is a \<^verbatim>\<open>short\<close> and
  the length is an \<^verbatim>\<open>int\<close>. A signed permutation has every absolute gene id from 1 to
  its length once: the arrays of \<^verbatim>\<open>invdist_noncircular\<close> are indexed by gene ids.
\<close>

definition wf_genome :: "Genome \<Rightarrow> bool" where
  "wf_genome g \<longleftrightarrow> (\<forall>x \<in> set (pi g). short_range x) \<and> len g \<le> 2147483647"

definition signed_perm :: "intArray \<Rightarrow> bool" where
  "signed_perm xs \<longleftrightarrow> xs \<noteq> [] \<and> distinct (map abs xs)
     \<and> (\<forall>x \<in> set xs. 1 \<le> \<bar>x\<bar> \<and> \<bar>x\<bar> \<le> int (length xs))"

text \<open>Two circular genomes over the genes 1 to 3.\<close>

definition genome_c123 :: Genome where
  "genome_c123 = \<lparr> pi = [1, 2, 3], circular = True \<rparr>"

definition genome_c3m12 :: Genome where
  "genome_c3m12 = \<lparr> pi = [3, - 1, 2], circular = True \<rparr>"

text \<open>The buffer \<open>b\<close> with the cell \<open>i\<close> set to \<open>v\<close>: what a write within bounds leaves.\<close>

definition put :: "buf \<Rightarrow> int \<Rightarrow> int \<Rightarrow> buf" where
  "put b i v = (if 0 \<le> i then b[nat i := Some v] else b)"

text \<open>
  The genes of the second genome in the order \<^verbatim>\<open>invdist_noncircular\<close> reads them:
  from \<open>offset\<close> on, or backwards and negated when \<open>offset\<close> is not below the length.
\<close>

definition gseq :: "intArray \<Rightarrow> int \<Rightarrow> int \<Rightarrow> int \<Rightarrow> int" where
  "gseq ys n offset i =
     (if offset < n then ys ! nat ((offset + i) mod n) else - (ys ! nat ((offset - i) mod n)))"

text \<open>
  A buffer of \<open>sz\<close> cells that holds the function \<open>f\<close>, and the extended permutations:
  permutations of \<open>0 .. sz - 1\<close> that fix both ends and map each pair of positions
  \<open>2i+1, 2i+2\<close> onto a pair of values \<open>2j+1, 2j+2\<close>, in either order.
\<close>

definition repr :: "int \<Rightarrow> buf \<Rightarrow> (int \<Rightarrow> int) \<Rightarrow> bool" where
  "repr sz b f \<longleftrightarrow> int (length b) = sz \<and> (\<forall>k. 0 \<le> k \<and> k < sz \<longrightarrow> rd b k = Some (f k))"

definition ext_perm :: "int \<Rightarrow> (int \<Rightarrow> int) \<Rightarrow> bool" where
  "ext_perm sz p \<longleftrightarrow> 4 \<le> sz \<and> even sz \<and> p 0 = 0 \<and> p (sz - 1) = sz - 1
     \<and> (\<forall>k. 0 \<le> k \<and> k < sz \<longrightarrow> 0 \<le> p k \<and> p k < sz)
     \<and> (\<forall>j k. 0 \<le> j \<and> j < sz \<and> 0 \<le> k \<and> k < sz \<and> p j = p k \<longrightarrow> j = k)
     \<and> (\<forall>i. 0 < i \<and> i < sz - 1 \<and> odd i \<longrightarrow>
           (odd (p i) \<and> p (i + 1) = p i + 1) \<or> (even (p i) \<and> p (i + 1) = p i - 1))"

text \<open>A work arena whose buffers all have \<open>sz\<close> cells, as \<^verbatim>\<open>distmem_struct\<close> allocates it.\<close>

definition sized :: "int \<Rightarrow> distmem \<Rightarrow> bool" where
  "sized sz dm \<longleftrightarrow> int (length (perm1 dm)) = sz \<and> int (length (perm2 dm)) = sz
     \<and> int (length (perm dm)) = sz \<and> int (length (done_buf dm)) = sz
     \<and> int (length (greyEdges dm)) = sz \<and> int (length (stack dm)) = sz
     \<and> int (length (oriented dm)) = sz \<and> int (length (cc dm)) = sz
     \<and> int (length (labeled dm)) = sz \<and> int (length (components dm)) = sz"

text \<open>
  The breakpoint graph. \<open>mate\<close> pairs 0 with 1, 2 with 3 and so on: on positions it is the
  black edge (\<^verbatim>\<open>next % 2 == 0 ? next + 1 : next - 1\<close>), on values the pair that a grey
  edge joins. \<open>pinv\<close> is the inverse permutation and \<open>grey_of\<close> the table \<^verbatim>\<open>greyEdges\<close>:
  the position of the mate of the value, or \<open>-1\<close> when that is the black partner.
  \<open>grey_ok\<close> is what the rest of the computation uses of the table.
\<close>

definition mate :: "int \<Rightarrow> int" where
  "mate v = (if even v then v + 1 else v - 1)"

definition pinv :: "int \<Rightarrow> (int \<Rightarrow> int) \<Rightarrow> int \<Rightarrow> int" where
  "pinv sz p v = (THE k. 0 \<le> k \<and> k < sz \<and> p k = v)"

definition grey_of :: "int \<Rightarrow> (int \<Rightarrow> int) \<Rightarrow> int \<Rightarrow> int" where
  "grey_of sz p k = (if pinv sz p (mate (p k)) = mate k then - 1 else pinv sz p (mate (p k)))"

definition grey_ok :: "int \<Rightarrow> (int \<Rightarrow> int) \<Rightarrow> bool" where
  "grey_ok sz g \<longleftrightarrow> 0 \<le> sz \<and> even sz
     \<and> (\<forall>k. 0 \<le> k \<and> k < sz \<and> g k \<noteq> - 1 \<longrightarrow>
           0 \<le> g k \<and> g k < sz \<and> g (g k) = k \<and> g (mate k) \<noteq> - 1 \<and> g k \<noteq> k)"

text \<open>
  The state that \<^verbatim>\<open>connected_component\<close> hands to the rest of
  \<^verbatim>\<open>num_hurdles_and_fortress\<close>: \<open>nc\<close> components, every grey edge entered at both of its
  ends, every vertex labelled in \<^verbatim>\<open>cc\<close> with \<open>-1\<close> or a component below \<open>nc\<close>, the
  ends of grey edges with a component, and every component with a vertex.
\<close>

definition components_labelled :: "int \<Rightarrow> int \<Rightarrow> distmem \<Rightarrow> bool" where
  "components_labelled sz nc dm \<longleftrightarrow> sized sz dm \<and> 0 \<le> nc \<and> nc \<le> sz
     \<and> (\<forall>i\<in>{0..<sz}. \<exists>j\<in>{- 1..<sz}. rd (greyEdges dm) i = Some j
            \<and> (j \<noteq> - 1 \<longrightarrow> j \<noteq> i \<and> rd (greyEdges dm) j = Some i))
     \<and> (\<forall>i\<in>{0..<sz}. \<exists>c\<in>{- 1..<nc}. rd (cc dm) i = Some c
            \<and> (rd (greyEdges dm) i \<noteq> Some (- 1) \<longrightarrow> c \<noteq> - 1))
     \<and> (\<forall>k\<in>{0..<nc}. \<exists>i\<in>{0..<sz}. rd (cc dm) i = Some k)"

text \<open>
  What lines 280 to 431 compute, read off that state. A vertex is oriented when its grey
  edge joins two positions of the same parity, a component is unoriented when none of its
  vertices is. The block sequence lists the components of the vertices of unoriented
  components from left to right, a run of one component counted once; the block count
  of a component is how often it occurs there. The left and the right neighbour of a
  component are the block before its last block that has one, and the block after its last
  block that has one (\<open>-1\<close> without).
\<close>

definition vertex_oriented :: "distmem \<Rightarrow> int \<Rightarrow> bool" where
  "vertex_oriented dm i = (case rd (greyEdges dm) i of None \<Rightarrow> False | Some j \<Rightarrow> j \<noteq> - 1 \<and> even (j - i))"

definition unoriented_component :: "int \<Rightarrow> distmem \<Rightarrow> int \<Rightarrow> bool" where
  "unoriented_component sz dm k \<longleftrightarrow> (\<forall>i\<in>{0..<sz}. rd (cc dm) i = Some k \<longrightarrow> \<not> vertex_oriented dm i)"

definition block_seq :: "int \<Rightarrow> distmem \<Rightarrow> int list" where
  "block_seq sz dm = remdups_adj (filter (\<lambda>k. k \<noteq> - 1 \<and> unoriented_component sz dm k)
     (map (\<lambda>i. the (rd (cc dm) i)) [0..sz - 1]))"

definition adjacent :: "int list \<Rightarrow> (int \<times> int) list" where
  "adjacent R = zip R (tl R)"

definition left_nb :: "int list \<Rightarrow> int \<Rightarrow> int" where
  "left_nb R k = (let ps = filter (\<lambda>ab. snd ab = k) (adjacent R) in if ps = [] then - 1 else fst (last ps))"

definition right_nb :: "int list \<Rightarrow> int \<Rightarrow> int" where
  "right_nb R k = (let ps = filter (\<lambda>ab. fst ab = k) (adjacent R) in if ps = [] then - 1 else snd (last ps))"

text \<open>
  The mark of a component after lines 378 to 392, the shape test of lines 402 to 407 on the
  block sequence, the number of hurdles, the \<^verbatim>\<open>hurdle\<close> field at the end of the function
  and the fortress flag.
\<close>

definition hurdle_mark :: "int list \<Rightarrow> int \<Rightarrow> int" where
  "hurdle_mark R k =
     (if count_list R k = 1 then HURDLE
      else if R \<noteq> [] \<and> hd R = k \<and> last R = k \<and> count_list R k = 2 then HURDLE OR GREATHURDLE
      else 0)"

definition super_test :: "int list \<Rightarrow> int \<Rightarrow> bool" where
  "super_test R k \<longleftrightarrow> left_nb R k = right_nb R k \<and> left_nb R k \<noteq> - 1
     \<and> count_list R (left_nb R k) = 2 \<and> hurdle_mark R (left_nb R k) AND GREATHURDLE = 0"

definition hurdle_total :: "int \<Rightarrow> int list \<Rightarrow> int" where
  "hurdle_total nc R = int (card {k \<in> {0..<nc}. hurdle_mark R k \<noteq> 0})"

definition hurdle_flags :: "int \<Rightarrow> int list \<Rightarrow> int \<Rightarrow> int" where
  "hurdle_flags nc R k =
     (if 3 \<le> hurdle_total nc R \<and> hurdle_mark R k \<noteq> 0
         \<and> (\<forall>j\<in>{0..k}. hurdle_mark R j \<noteq> 0 \<longrightarrow> super_test R j)
      then hurdle_mark R k OR SUPERHURDLE else hurdle_mark R k)"

definition fortress :: "int \<Rightarrow> int list \<Rightarrow> int" where
  "fortress nc R =
     (if 3 \<le> hurdle_total nc R \<and> (\<forall>j\<in>{0..<nc}. hurdle_mark R j \<noteq> 0 \<longrightarrow> super_test R j)
         \<and> odd (hurdle_total nc R)
      then 1 else 0)"

section \<open>Loops and arrays\<close>

declare for_loop.simps [simp del] for_loop_ret.simps [simp del] pop_loop.simps [simp del]

lemma for_loop_done: "\<not> i < hi \<Longrightarrow> for_loop i hi step body s = Some s"
  by (subst for_loop.simps) simp

lemma for_loop_unfold:
  "i < hi \<Longrightarrow> 0 < step \<Longrightarrow>
   for_loop i hi step body s = Option.bind (body i s) (for_loop (i + step) hi step body)"
  by (subst for_loop.simps) (simp split: option.splits)

text \<open>Total correctness of a loop with step 1 from an invariant.\<close>

lemma for_loop_total:
  assumes "I lo s" and "lo \<le> hi"
    and "\<And>i t. lo \<le> i \<Longrightarrow> i < hi \<Longrightarrow> I i t \<Longrightarrow> \<exists>t'. body i t = Some t' \<and> I (i + 1) t'"
  shows "\<exists>s'. for_loop lo hi 1 body s = Some s' \<and> I hi s'"
  using assms
proof (induction "nat (hi - lo)" arbitrary: lo s)
  case 0
  then have "lo = hi" by simp
  with 0 show ?case by (simp add: for_loop_done)
next
  case (Suc k)
  then have lt: "lo < hi" by linarith
  from Suc.prems(3)[OF order_refl lt Suc.prems(1)]
  obtain t where t: "body lo s = Some t" "I (lo + 1) t" by blast
  have "\<exists>s'. for_loop (lo + 1) hi 1 body t = Some s' \<and> I hi s'"
  proof (rule Suc.hyps(1))
    show "k = nat (hi - (lo + 1))" using Suc.hyps(2) by linarith
    show "I (lo + 1) t" by (rule t)
    show "lo + 1 \<le> hi" using lt by simp
    show "\<And>i t. lo + 1 \<le> i \<Longrightarrow> i < hi \<Longrightarrow> I i t \<Longrightarrow> \<exists>t'. body i t = Some t' \<and> I (i + 1) t'"
      using Suc.prems(3) by simp
  qed
  then show ?case using t lt by (simp add: for_loop_unfold)
qed


text \<open>Total correctness of a loop with step 2.\<close>

lemma for_loop2_total:
  assumes "I lo s" and "lo \<le> hi" and "even (hi - lo)"
    and "\<And>i t. lo \<le> i \<Longrightarrow> i < hi \<Longrightarrow> even (i - lo) \<Longrightarrow> I i t \<Longrightarrow> \<exists>t'. body i t = Some t' \<and> I (i + 2) t'"
  shows "\<exists>s'. for_loop lo hi 2 body s = Some s' \<and> I hi s'"
  using assms
proof (induction "nat (hi - lo)" arbitrary: lo s rule: less_induct)
  case less
  show ?case
  proof (cases "lo < hi")
    case False
    with less.prems have "lo = hi" by simp
    with less.prems show ?thesis by (simp add: for_loop_done)
  next
    case lt: True
    from less.prems(4)[OF order_refl lt _ less.prems(1)]
    obtain t where t: "body lo s = Some t" "I (lo + 2) t" by auto
    from lt less.prems(3) have le2: "lo + 2 \<le> hi" by presburger
    have "\<exists>s'. for_loop (lo + 2) hi 2 body t = Some s' \<and> I hi s'"
    proof (rule less.hyps)
      show "nat (hi - (lo + 2)) < nat (hi - lo)" using lt by linarith
      show "I (lo + 2) t" by (rule t)
      show "lo + 2 \<le> hi" by (rule le2)
      show "even (hi - (lo + 2))" using less.prems(3) by simp
      show "\<And>i t. lo + 2 \<le> i \<Longrightarrow> i < hi \<Longrightarrow> even (i - (lo + 2)) \<Longrightarrow> I i t \<Longrightarrow> \<exists>t'. body i t = Some t' \<and> I (i + 2) t'"
        using less.prems(4) by simp
    qed
    then show ?thesis using t lt by (simp add: for_loop_unfold)
  qed
qed

lemma wr_put: "0 \<le> i \<Longrightarrow> i < int (length b) \<Longrightarrow> wr b i v = Some (put b i v)"
  by (simp add: wr_def put_def)

lemma wr_eq_Some: "wr b i v = Some b' \<longleftrightarrow> 0 \<le> i \<and> i < int (length b) \<and> b' = put b i v"
  by (auto simp: wr_def put_def)

lemma length_put [simp]: "length (put b i v) = length b"
  by (simp add: put_def)

lemma rd_put: "rd (put b i v) k = (if k = i \<and> 0 \<le> i \<and> i < int (length b) then Some v else rd b k)"
proof -
  have "0 \<le> k \<Longrightarrow> 0 \<le> i \<Longrightarrow> k \<noteq> i \<Longrightarrow> nat i \<noteq> nat k" by simp
  then show ?thesis by (auto simp: rd_def put_def nth_list_update)
qed

lemma rd_put_same: "0 \<le> i \<Longrightarrow> i < int (length b) \<Longrightarrow> rd (put b i v) i = Some v"
  by (simp add: rd_put)

lemma rd_put_other: "k \<noteq> i \<Longrightarrow> rd (put b i v) k = rd b k"
  by (simp add: rd_put)

lemma rd_range: "rd b k = Some v \<Longrightarrow> 0 \<le> k \<and> k < int (length b)"
  by (auto simp: rd_def split: if_splits)

lemma rd_replicate_None [simp]: "rd (replicate n None) k = None"
  by (auto simp: rd_def)

lemma c_mod_nonneg: "0 \<le> a \<Longrightarrow> 0 < b \<Longrightarrow> c_mod a b = a mod b"
  by (cases "a = 0") (simp_all add: c_mod_def)

lemma fld_Some: "0 \<le> k \<Longrightarrow> k < int (length cs) \<Longrightarrow> fld cs k f = f (cs ! nat k)"
  by (simp add: fld_def)


lemma upd_Some: "0 \<le> k \<Longrightarrow> k < int (length cs) \<Longrightarrow> upd cs k f = Some (cs[nat k := f (cs ! nat k)])"
  by (simp add: upd_def)





lemma finite_upto: "finite {k. int k < i \<and> P k}"
  by (rule finite_subset[of _ "{..<nat i}"]) auto

lemma card_upto_step:
  assumes "0 \<le> i"
  shows "card {k. int k < i + 1 \<and> P k} = card {k. int k < i \<and> P k} + (if P (nat i) then 1 else 0)"
proof -
  have eq: "{k. int k < i + 1 \<and> P k} =
      (if P (nat i) then insert (nat i) {k. int k < i \<and> P k} else {k. int k < i \<and> P k})"
    using assms by (auto simp: less_le)
  have "nat i \<notin> {k. int k < i \<and> P k}" using assms by simp
  then show ?thesis unfolding eq by (simp add: finite_upto)
qed

text \<open>The marking loop (lines 378 to 386).\<close>

lemma hurdle_loop:
  assumes nc: "0 \<le> nc" "nc \<le> int (length cs)"
    and init: "\<forall>k. int k < nc \<longrightarrow> oriented_c (cs ! k) \<noteq> None \<and> blocks (cs ! k) \<noteq> None"
  shows "\<exists>cs'. for_loop 0 nc 1 hurdle_step (0, cs) =
        Some (int (card {k. int k < nc \<and> oriented_c (cs ! k) = Some 0 \<and> blocks (cs ! k) = Some 1}), cs')
     \<and> length cs' = length cs
     \<and> (\<forall>k. cs' ! k =
          (if int k < nc \<and> oriented_c (cs ! k) = Some 0 \<and> blocks (cs ! k) = Some 1
           then (cs ! k)\<lparr>hurdle := Some HURDLE\<rparr> else cs ! k))"
proof -
  let ?H = "\<lambda>k. oriented_c (cs ! k) = Some 0 \<and> blocks (cs ! k) = Some 1"
  let ?I = "\<lambda>i (nh, c). length c = length cs \<and> nh = int (card {k. int k < i \<and> ?H k})
     \<and> (\<forall>k. c ! k = (if int k < i \<and> ?H k then (cs ! k)\<lparr>hurdle := Some HURDLE\<rparr> else cs ! k))"
  have "\<exists>s'. for_loop 0 nc 1 hurdle_step (0, cs) = Some s' \<and> ?I nc s'"
  proof (rule for_loop_total[where I = ?I, OF _ nc(1)])
    show "?I 0 (0, cs)" by simp
  next
    fix i t
    assume i: "0 \<le> i" "i < nc" and I: "?I i t"
    obtain nh c where t: "t = (nh, c)" by (cases t)
    from I have len: "length c = length cs"
      and nh: "nh = int (card {k. int k < i \<and> ?H k})"
      and c: "\<And>k. c ! k = (if int k < i \<and> ?H k then (cs ! k)\<lparr>hurdle := Some HURDLE\<rparr> else cs ! k)"
      by (simp_all add: t)
    have ci: "c ! nat i = cs ! nat i" using i by (simp add: c)
    have il: "i < int (length c)" using i nc len by simp
    from init i obtain ov b where ob: "oriented_c (cs ! nat i) = Some ov" "blocks (cs ! nat i) = Some b"
      by (metis int_nat_eq not_None_eq)
    show "\<exists>t'. hurdle_step i t = Some t' \<and> ?I (i + 1) t'"
    proof (cases "?H (nat i)")
      case True
      have "hurdle_step i t = Some (nh + 1, c[nat i := (c ! nat i)\<lparr>hurdle := Some HURDLE\<rparr>])"
        using True i il ci by (simp add: t hurdle_step_def fld_Some upd_Some)
      moreover have "?I (i + 1) (nh + 1, c[nat i := (c ! nat i)\<lparr>hurdle := Some HURDLE\<rparr>])"
      proof -
        have "\<And>k. (c[nat i := (c ! nat i)\<lparr>hurdle := Some HURDLE\<rparr>]) ! k =
            (if int k < i + 1 \<and> ?H k then (cs ! k)\<lparr>hurdle := Some HURDLE\<rparr> else cs ! k)"
        proof -
          fix k
          show "(c[nat i := (c ! nat i)\<lparr>hurdle := Some HURDLE\<rparr>]) ! k =
            (if int k < i + 1 \<and> ?H k then (cs ! k)\<lparr>hurdle := Some HURDLE\<rparr> else cs ! k)"
          proof (cases "k = nat i")
            case k: True
            then show ?thesis using True i il ci by simp
          next
            case k: False
            then have "int k < i + 1 \<longleftrightarrow> int k < i" using i by auto
            then show ?thesis using k by (simp add: c)
          qed
        qed
        then show ?thesis using True i len nh card_upto_step[OF i(1), of ?H] by simp
      qed
      ultimately show ?thesis by blast
    next
      case False
      have "hurdle_step i t = Some (nh, c)"
        using False i il ci ob by (auto simp: t hurdle_step_def fld_Some)
      moreover have "?I (i + 1) (nh, c)"
      proof -
        have "\<And>k. c ! k =
            (if int k < i + 1 \<and> ?H k then (cs ! k)\<lparr>hurdle := Some HURDLE\<rparr> else cs ! k)"
        proof -
          fix k
          show "c ! k = (if int k < i + 1 \<and> ?H k then (cs ! k)\<lparr>hurdle := Some HURDLE\<rparr> else cs ! k)"
          proof (cases "k = nat i")
            case k: True
            then show ?thesis using False i ci by auto
          next
            case k: False
            then have "int k < i + 1 \<longleftrightarrow> int k < i" using i by auto
            then show ?thesis by (simp add: c)
          qed
        qed
        then show ?thesis using False i len nh card_upto_step[OF i(1), of ?H] by simp
      qed
      ultimately show ?thesis by blast
    qed
  qed
  then show ?thesis by auto
qed

lemma for_loop_ret_done: "\<not> i < hi \<Longrightarrow> for_loop_ret i hi body s = Some (Inr s)"
  by (subst for_loop_ret.simps) simp

lemma for_loop_ret_unfold:
  "i < hi \<Longrightarrow> for_loop_ret i hi body s =
     (case body i s of None \<Rightarrow> None | Some (Inl r) \<Rightarrow> Some (Inl r)
      | Some (Inr s') \<Rightarrow> for_loop_ret (i + 1) hi body s')"
  by (subst for_loop_ret.simps) simp

text \<open>Total correctness of a loop that may return early: it ends with the invariant
  at the bound, or it returned where the body did, with \<open>Q\<close>.\<close>

lemma for_loop_ret_total:
  assumes "I lo s" and "lo \<le> hi"
    and "\<And>i t. lo \<le> i \<Longrightarrow> i < hi \<Longrightarrow> I i t \<Longrightarrow>
          (\<exists>t'. body i t = Some (Inr t') \<and> I (i + 1) t') \<or> (\<exists>r. body i t = Some (Inl r) \<and> Q r)"
  shows "(\<exists>s'. for_loop_ret lo hi body s = Some (Inr s') \<and> I hi s')
       \<or> (\<exists>r. for_loop_ret lo hi body s = Some (Inl r) \<and> Q r)"
  using assms
proof (induction "nat (hi - lo)" arbitrary: lo s)
  case 0
  then have "lo = hi" by simp
  with 0 show ?case by (simp add: for_loop_ret_done)
next
  case (Suc k)
  then have lt: "lo < hi" by linarith
  from Suc.prems(3)[OF order_refl lt Suc.prems(1)]
  show ?case
  proof
    assume "\<exists>t'. body lo s = Some (Inr t') \<and> I (lo + 1) t'"
    then obtain t where t: "body lo s = Some (Inr t)" "I (lo + 1) t" by blast
    have "(\<exists>s'. for_loop_ret (lo + 1) hi body t = Some (Inr s') \<and> I hi s')
       \<or> (\<exists>r. for_loop_ret (lo + 1) hi body t = Some (Inl r) \<and> Q r)"
    proof (rule Suc.hyps(1))
      show "k = nat (hi - (lo + 1))" using Suc.hyps(2) by linarith
      show "I (lo + 1) t" by (rule t)
      show "lo + 1 \<le> hi" using lt by simp
      show "\<And>i t. lo + 1 \<le> i \<Longrightarrow> i < hi \<Longrightarrow> I i t \<Longrightarrow>
          (\<exists>t'. body i t = Some (Inr t') \<and> I (i + 1) t') \<or> (\<exists>r. body i t = Some (Inl r) \<and> Q r)"
        using Suc.prems(3) by simp
    qed
    then show ?thesis using t lt by (simp add: for_loop_ret_unfold)
  next
    assume "\<exists>r. body lo s = Some (Inl r) \<and> Q r"
    then show ?thesis using lt by (auto simp: for_loop_ret_unfold)
  qed
qed

lemma or_and_flags: "(h OR SUPERHURDLE) AND GREATHURDLE = h AND GREATHURDLE" for h :: int
proof -
  have "(h OR SUPERHURDLE) AND GREATHURDLE = (h AND GREATHURDLE) OR (SUPERHURDLE AND GREATHURDLE)"
    by (rule bit.conj_disj_distrib2)
  also have "SUPERHURDLE AND GREATHURDLE = 0"
    by (simp add: SUPERHURDLE_def GREATHURDLE_def)
  finally show ?thesis by simp
qed

subsection \<open>Validation: the collected genes, duplicates and unequal\_content\<close>

lemma at_Some: "0 \<le> k \<Longrightarrow> k < int (length xs) \<Longrightarrow> at xs k = Some (xs ! nat k)"
  by (simp add: at_def)

lemma at_eq_Some: "at xs k = Some v \<longleftrightarrow> 0 \<le> k \<and> k < int (length xs) \<and> xs ! nat k = v"
  by (auto simp: at_def)

lemma at_0_Cons [simp]: "at (x # xs) 0 = Some x"
  by (simp add: at_def)

lemma at_0_Nil [simp]: "at [] k = None"
  by (simp add: at_def)

text \<open>The genes collected for validation: those of the first chromosome.\<close>

lemma abs_genes_inner:
  "for_loop 0 (len p) 1 (\<lambda>j genes. do { x \<leftarrow> at (pi p) j; Some (genes @ [to_short \<bar>x\<bar>]) }) []
     = Some (map (\<lambda>x. to_short \<bar>x\<bar>) (pi p))"
proof -
  let ?f = "\<lambda>x. to_short \<bar>x\<bar>"
  let ?I = "\<lambda>i genes. genes = map ?f (take (nat i) (pi p))"
  have "\<exists>s'. for_loop 0 (len p) 1 (\<lambda>j genes. do { x \<leftarrow> at (pi p) j; Some (genes @ [?f x]) }) []
      = Some s' \<and> ?I (len p) s'"
  proof (rule for_loop_total[where I = ?I])
    show "?I 0 []" by simp
    show "0 \<le> len p" by (simp add: len_def)
  next
    fix i t
    assume i: "0 \<le> i" "i < len p" and I: "?I i t"
    have il: "nat i < length (pi p)" using i by (simp add: len_def)
    have "take (nat (i + 1)) (pi p) = take (nat i) (pi p) @ [pi p ! nat i]"
      using i il by (simp add: nat_add_distrib take_Suc_conv_app_nth)
    then show "\<exists>t'. do { x \<leftarrow> at (pi p) i; Some (t @ [?f x]) } = Some t' \<and> ?I (i + 1) t'"
      using i I by (simp add: at_Some len_def)
  qed
  then show ?thesis by (simp add: len_def)
qed

lemma abs_genes_Cons: "abs_genes (p # ps) = Some (map (\<lambda>x. to_short \<bar>x\<bar>) (pi p))"
  by (simp add: abs_genes_def num_chromosomes_def for_loop_unfold for_loop_done abs_genes_inner)

lemma abs_genes_Nil: "abs_genes [] = None"
  by (simp add: abs_genes_def num_chromosomes_def for_loop_unfold)

text \<open>A sorted list has a repeated element iff two neighbours are equal.\<close>

lemma sorted_distinct_adjacent:
  fixes ys :: "int list"
  assumes "sorted ys"
  shows "distinct ys \<longleftrightarrow> (\<forall>i. Suc i < length ys \<longrightarrow> ys ! i \<noteq> ys ! Suc i)"
proof
  assume "distinct ys"
  then show "\<forall>i. Suc i < length ys \<longrightarrow> ys ! i \<noteq> ys ! Suc i"
    by (auto simp: distinct_conv_nth)
next
  assume a: "\<forall>i. Suc i < length ys \<longrightarrow> ys ! i \<noteq> ys ! Suc i"
  have "\<forall>i. Suc i < length ys \<longrightarrow> ys ! i < ys ! Suc i"
  proof (intro allI impI)
    fix i assume i: "Suc i < length ys"
    then have "ys ! i \<le> ys ! Suc i" using assms by (simp add: sorted_iff_nth_Suc)
    then show "ys ! i < ys ! Suc i" using a i by fastforce
  qed
  then have "sorted_wrt (<) ys"
    by (simp add: sorted_wrt_iff_nth_Suc_transp)
  then show "distinct ys" by (simp add: strict_sorted_iff)
qed

text \<open>On absolute values of \<^verbatim>\<open>short\<close>s the conversion back to \<^verbatim>\<open>short\<close> is injective.\<close>

lemma to_short_abs_inj:
  assumes "short_range x" and "short_range y"
  shows "to_short \<bar>x\<bar> = to_short \<bar>y\<bar> \<longleftrightarrow> \<bar>x\<bar> = \<bar>y\<bar>"
proof -
  have "\<And>a. 0 \<le> a \<Longrightarrow> a \<le> 32768 \<Longrightarrow> to_short a = (if a = 32768 then - 32768 else a)"
    by (auto simp: to_short_def)
  moreover have "0 \<le> \<bar>x\<bar>" "\<bar>x\<bar> \<le> 32768" "0 \<le> \<bar>y\<bar>" "\<bar>y\<bar> \<le> 32768"
    using assms by (auto simp: short_range_def)
  ultimately show ?thesis by (auto split: if_splits)
qed

lemma distinct_to_short_abs:
  assumes "\<forall>x \<in> set xs. short_range x"
  shows "distinct (map (\<lambda>x. to_short \<bar>x\<bar>) xs) \<longleftrightarrow> distinct (map abs xs)"
proof -
  have "inj_on (\<lambda>x. to_short \<bar>x\<bar>) (set xs) \<longleftrightarrow> inj_on abs (set xs)"
    unfolding inj_on_def using assms to_short_abs_inj by blast
  then show ?thesis by (simp add: distinct_map)
qed

text \<open>The scan for two equal neighbours (lines 263 to 268) on a non-empty vector.\<close>

lemma duplicates_scan:
  fixes ys :: "int list"
  assumes ne: "ys \<noteq> []"
  shows "for_loop_ret 0 (int (length ys) - 1) (\<lambda>i (u::unit). do {
            a \<leftarrow> at ys i;
            b \<leftarrow> at ys (i + 1);
            if a = b then Some (Inl True) else Some (Inr ()) }) ()
       = Some (if (\<forall>i. Suc i < length ys \<longrightarrow> ys ! i \<noteq> ys ! Suc i) then Inr () else Inl True)"
proof -
  let ?body = "\<lambda>i (u::unit). do {
            a \<leftarrow> at ys i;
            b \<leftarrow> at ys (i + 1);
            if a = b then Some (Inl True) else Some (Inr ()) }"
  let ?I = "\<lambda>i (u::unit). \<forall>k. int k < i \<longrightarrow> ys ! k \<noteq> ys ! Suc k"
  let ?Q = "\<lambda>r::bool. r \<and> (\<exists>k. Suc k < length ys \<and> ys ! k = ys ! Suc k)"
  have "(\<exists>s'. for_loop_ret 0 (int (length ys) - 1) ?body () = Some (Inr s') \<and> ?I (int (length ys) - 1) s')
      \<or> (\<exists>r. for_loop_ret 0 (int (length ys) - 1) ?body () = Some (Inl r) \<and> ?Q r)"
  proof (rule for_loop_ret_total[where I = ?I and Q = ?Q])
    show "?I 0 ()" by simp
    show "0 \<le> int (length ys) - 1" using ne by (cases ys) simp_all
  next
    fix i and t :: unit
    assume i: "0 \<le> i" "i < int (length ys) - 1" and I: "?I i t"
    have e: "at ys i = Some (ys ! nat i)" "at ys (i + 1) = Some (ys ! Suc (nat i))"
      using i by (simp_all add: at_def nat_add_distrib)
    show "(\<exists>t'. ?body i t = Some (Inr t') \<and> ?I (i + 1) t') \<or> (\<exists>r. ?body i t = Some (Inl r) \<and> ?Q r)"
    proof (cases "ys ! nat i = ys ! Suc (nat i)")
      case True
      have "Suc (nat i) < length ys" using i by linarith
      then show ?thesis using True e by auto
    next
      case False
      have "\<And>k. int k < i + 1 \<Longrightarrow> ys ! k \<noteq> ys ! Suc k"
      proof -
        fix k assume "int k < i + 1"
        then have "int k < i \<or> k = nat i" using i by linarith
        then show "ys ! k \<noteq> ys ! Suc k" using I False by auto
      qed
      then show ?thesis using False e by simp
    qed
  qed
  then show ?thesis
  proof
    assume "\<exists>s'. for_loop_ret 0 (int (length ys) - 1) ?body () = Some (Inr s') \<and> ?I (int (length ys) - 1) s'"
    then have l: "for_loop_ret 0 (int (length ys) - 1) ?body () = Some (Inr ())"
      and a: "\<forall>k. int k < int (length ys) - 1 \<longrightarrow> ys ! k \<noteq> ys ! Suc k" by auto
    have "\<forall>i. Suc i < length ys \<longrightarrow> ys ! i \<noteq> ys ! Suc i"
    proof (intro allI impI)
      fix i assume "Suc i < length ys"
      then have "int i < int (length ys) - 1" by linarith
      then show "ys ! i \<noteq> ys ! Suc i" using a by blast
    qed
    then show ?thesis using l by simp
  next
    assume "\<exists>r. for_loop_ret 0 (int (length ys) - 1) ?body () = Some (Inl r) \<and> ?Q r"
    then show ?thesis by auto
  qed
qed

lemma duplicates_empty:
  assumes "pi p = []"
  shows "duplicates (p # ps) = None"
proof -
  have "((0::int) - 1) mod 2 ^ 64 = 18446744073709551615" by simp
  then show ?thesis using assms
    by (simp add: duplicates_def abs_genes_Cons for_loop_ret_unfold)
qed

lemma duplicates_nonempty:
  assumes ne: "pi p \<noteq> []" and l: "len p \<le> 2147483647"
  shows "duplicates (p # ps) = Some (\<not> distinct (map (\<lambda>x. to_short \<bar>x\<bar>) (pi p)))"
proof -
  let ?ys = "sort (map (\<lambda>x. to_short \<bar>x\<bar>) (pi p))"
  have n: "?ys \<noteq> []" using ne by (metis length_map length_sort length_0_conv)
  have "0 \<le> int (length ?ys) - 1" "int (length ?ys) - 1 < 2 ^ 64"
    using ne l by (simp_all add: len_def Suc_le_eq)
  then have b: "(int (length ?ys) - 1) mod 2 ^ 64 = int (length ?ys) - 1"
    by (rule mod_pos_pos_trivial)
  have d: "distinct ?ys \<longleftrightarrow> (\<forall>i. Suc i < length ?ys \<longrightarrow> ?ys ! i \<noteq> ?ys ! Suc i)"
    by (rule sorted_distinct_adjacent) simp
  have "duplicates (p # ps) = Some (\<not> distinct ?ys)"
    using duplicates_scan[OF n] b d by (auto simp: duplicates_def abs_genes_Cons Let_def)
  then show ?thesis by simp
qed

lemma duplicates_wf:
  assumes "wf_genome p" and "pi p \<noteq> []"
  shows "duplicates (p # ps) = Some (\<not> distinct (map abs (pi p)))"
  using assms duplicates_nonempty[of p ps] distinct_to_short_abs[of "pi p"]
  by (simp add: wf_genome_def)

lemma duplicates_Nil: "duplicates [] = None"
  by (simp add: duplicates_def abs_genes_Nil)

text \<open>The comparison of the two sorted vectors (lines 307 to 317).\<close>

lemma unequal_scan:
  fixes xs ys :: "int list"
  assumes len: "length xs = length ys"
  shows "for_loop_ret 0 (int (length xs)) (\<lambda>i (u::unit). do {
            a \<leftarrow> at xs i;
            b \<leftarrow> at ys i;
            if a \<noteq> b then Some (Inl True) else Some (Inr ()) }) ()
       = Some (if xs = ys then Inr () else Inl True)"
proof -
  let ?body = "\<lambda>i (u::unit). do {
            a \<leftarrow> at xs i;
            b \<leftarrow> at ys i;
            if a \<noteq> b then Some (Inl True) else Some (Inr ()) }"
  let ?I = "\<lambda>i (u::unit). \<forall>k. int k < i \<longrightarrow> xs ! k = ys ! k"
  let ?Q = "\<lambda>r::bool. r \<and> xs \<noteq> ys"
  have "(\<exists>s'. for_loop_ret 0 (int (length xs)) ?body () = Some (Inr s') \<and> ?I (int (length xs)) s')
      \<or> (\<exists>r. for_loop_ret 0 (int (length xs)) ?body () = Some (Inl r) \<and> ?Q r)"
  proof (rule for_loop_ret_total[where I = ?I and Q = ?Q])
    show "?I 0 ()" by simp
    show "0 \<le> int (length xs)" by simp
  next
    fix i and t :: unit
    assume i: "0 \<le> i" "i < int (length xs)" and I: "?I i t"
    have e: "at xs i = Some (xs ! nat i)" "at ys i = Some (ys ! nat i)"
      using i len by (simp_all add: at_def)
    show "(\<exists>t'. ?body i t = Some (Inr t') \<and> ?I (i + 1) t') \<or> (\<exists>r. ?body i t = Some (Inl r) \<and> ?Q r)"
    proof (cases "xs ! nat i = ys ! nat i")
      case False
      then have "xs \<noteq> ys" by auto
      then show ?thesis using False e by auto
    next
      case True
      have "\<And>k. int k < i + 1 \<Longrightarrow> xs ! k = ys ! k"
      proof -
        fix k assume "int k < i + 1"
        then have "int k < i \<or> k = nat i" using i by linarith
        then show "xs ! k = ys ! k" using I True by auto
      qed
      then show ?thesis using True e by simp
    qed
  qed
  then show ?thesis
  proof
    assume "\<exists>s'. for_loop_ret 0 (int (length xs)) ?body () = Some (Inr s') \<and> ?I (int (length xs)) s'"
    then have l: "for_loop_ret 0 (int (length xs)) ?body () = Some (Inr ())"
      and a: "\<forall>k. int k < int (length xs) \<longrightarrow> xs ! k = ys ! k" by auto
    have "xs = ys" using a len by (simp add: list_eq_iff_nth_eq)
    then show ?thesis using l by simp
  next
    assume "\<exists>r. for_loop_ret 0 (int (length xs)) ?body () = Some (Inl r) \<and> ?Q r"
    then show ?thesis by auto
  qed
qed

lemma sort_eq_iff_mset: "sort xs = sort ys \<longleftrightarrow> mset xs = mset ys" for xs ys :: "int list"
proof
  assume "sort xs = sort ys"
  then have "mset (sort xs) = mset (sort ys)" by simp
  then show "mset xs = mset ys" by simp
next
  assume "mset xs = mset ys"
  then have "mset (sort ys) = mset xs" by simp
  then show "sort xs = sort ys" by (rule properties_for_sort) simp
qed

lemma unequal_content_Cons:
  "unequal_content (p # ps) (q # qs)
     = Some (mset (map (\<lambda>x. to_short \<bar>x\<bar>) (pi p)) \<noteq> mset (map (\<lambda>x. to_short \<bar>x\<bar>) (pi q)))"
proof -
  let ?f = "\<lambda>x. to_short \<bar>x\<bar>"
  let ?A = "sort (map ?f (pi p))" and ?B = "sort (map ?f (pi q))"
  show ?thesis
  proof (cases "length ?A = length ?B")
    case False
    then have "mset (map ?f (pi p)) \<noteq> mset (map ?f (pi q))"
      by (metis length_map length_sort size_mset)
    then show ?thesis using False
      by (simp add: unequal_content_def abs_genes_Cons Let_def)
  next
    case True
    have "unequal_content (p # ps) (q # qs) = Some (?A \<noteq> ?B)"
      using True unequal_scan[OF True] by (auto simp: unequal_content_def abs_genes_Cons Let_def)
    then show ?thesis by (simp add: sort_eq_iff_mset)
  qed
qed

lemma mset_map_to_short_abs:
  "mset (map (\<lambda>x. to_short \<bar>x\<bar>) xs) = image_mset to_short (mset (map abs xs))"
  by (induction xs) simp_all

lemma mset_to_short_abs:
  assumes "\<forall>x \<in> set xs. short_range x" and "\<forall>x \<in> set ys. short_range x"
  shows "mset (map (\<lambda>x. to_short \<bar>x\<bar>) xs) = mset (map (\<lambda>x. to_short \<bar>x\<bar>) ys)
     \<longleftrightarrow> mset (map abs xs) = mset (map abs ys)"
proof
  assume "mset (map abs xs) = mset (map abs ys)"
  then show "mset (map (\<lambda>x. to_short \<bar>x\<bar>) xs) = mset (map (\<lambda>x. to_short \<bar>x\<bar>) ys)"
    unfolding mset_map_to_short_abs by (rule arg_cong)
next
  assume a: "mset (map (\<lambda>x. to_short \<bar>x\<bar>) xs) = mset (map (\<lambda>x. to_short \<bar>x\<bar>) ys)"
  have inj: "inj_on to_short (set_mset (mset (map abs xs)) \<union> set_mset (mset (map abs ys)))"
  proof (rule inj_onI)
    fix a b
    assume "a \<in> set_mset (mset (map abs xs)) \<union> set_mset (mset (map abs ys))"
      "b \<in> set_mset (mset (map abs xs)) \<union> set_mset (mset (map abs ys))"
      "to_short a = to_short b"
    then obtain x y where "short_range x" "short_range y" "a = \<bar>x\<bar>" "b = \<bar>y\<bar>"
      "to_short \<bar>x\<bar> = to_short \<bar>y\<bar>" using assms by auto
    then show "a = b" using to_short_abs_inj by blast
  qed
  from a have "image_mset to_short (mset (map abs xs))
      = image_mset to_short (mset (map abs ys)) + {#}"
    unfolding mset_map_to_short_abs by simp
  from image_mset_eq_image_mset_plusD[OF this inj]
  show "mset (map abs xs) = mset (map abs ys)" by auto
qed

lemma unequal_content_wf:
  assumes "wf_genome p" and "wf_genome q"
  shows "unequal_content (p # ps) (q # qs)
     = Some (mset (map abs (pi p)) \<noteq> mset (map abs (pi q)))"
  using assms mset_to_short_abs[of "pi p" "pi q"]
  by (simp add: unequal_content_Cons wf_genome_def)

lemma HURDLE_GREAT:
  "HURDLE OR GREATHURDLE = 3" "HURDLE = 1" "(1::int) OR GREATHURDLE = 3" "GREATHURDLE = 2"
  by (simp_all add: HURDLE_def GREATHURDLE_def)

subsection \<open>The hurdles (C3)\<close>



lemma flag_super_simps [simp]:
  "blocks (flag_super c) = blocks c" "left (flag_super c) = left c" "right (flag_super c) = right c"
  "oriented_c (flag_super c) = oriented_c c" "index (flag_super c) = index c"
  "hurdle (flag_super c) = map_option (\<lambda>h. h OR SUPERHURDLE) (hurdle c)"
  by (simp_all add: flag_super_def)

text \<open>The superhurdle loop (lines 398 to 422).\<close>

lemma superhurdle_loop:
  assumes sc: "scanned nc cs" and nc: "0 \<le> nc"
  shows "(\<exists>c. for_loop_ret 0 nc superhurdle_step (0, cs)
              = Some (Inr (int (card {k. int k < nc \<and> hurdle (cs ! k) \<noteq> Some 0}), c))
            \<and> length c = length cs
            \<and> (\<forall>k. int k < nc \<longrightarrow> hurdle (cs ! k) \<noteq> Some 0 \<longrightarrow> shape_test cs k)
            \<and> (\<forall>k. c ! k = (if int k < nc \<and> hurdle (cs ! k) \<noteq> Some 0 then flag_super (cs ! k) else cs ! k)))
       \<or> (\<exists>c i0. for_loop_ret 0 nc superhurdle_step (0, cs) = Some (Inl c)
            \<and> length c = length cs
            \<and> int i0 < nc \<and> hurdle (cs ! i0) \<noteq> Some 0 \<and> \<not> shape_test cs i0
            \<and> (\<forall>k. k < i0 \<longrightarrow> hurdle (cs ! k) \<noteq> Some 0 \<longrightarrow> shape_test cs k)
            \<and> (\<forall>k. c ! k = (if k < i0 \<and> hurdle (cs ! k) \<noteq> Some 0 then flag_super (cs ! k) else cs ! k)))"
proof -
  let ?H = "\<lambda>k. hurdle (cs ! k) \<noteq> Some 0"
  let ?I = "\<lambda>i (nsh, c). length c = length cs \<and> nsh = int (card {k. int k < i \<and> ?H k})
            \<and> (\<forall>k. int k < i \<longrightarrow> ?H k \<longrightarrow> shape_test cs k)
            \<and> (\<forall>k. c ! k = (if int k < i \<and> ?H k then flag_super (cs ! k) else cs ! k))"
  let ?Q = "\<lambda>c. \<exists>i0. length c = length cs
            \<and> int i0 < nc \<and> ?H i0 \<and> \<not> shape_test cs i0
            \<and> (\<forall>k. k < i0 \<longrightarrow> ?H k \<longrightarrow> shape_test cs k)
            \<and> (\<forall>k. c ! k = (if k < i0 \<and> ?H k then flag_super (cs ! k) else cs ! k))"
  from sc have ncl: "nc \<le> int (length cs)" by (simp add: scanned_def)
  have fields: "\<And>k. int k < nc \<Longrightarrow> \<exists>b h l r. blocks (cs ! k) = Some b \<and> hurdle (cs ! k) = Some h
           \<and> left (cs ! k) = Some l \<and> right (cs ! k) = Some r
           \<and> - 1 \<le> l \<and> l < nc \<and> - 1 \<le> r \<and> r < nc"
    using sc by (simp add: scanned_def)
  have "(\<exists>s'. for_loop_ret 0 nc superhurdle_step (0, cs) = Some (Inr s') \<and> ?I nc s')
       \<or> (\<exists>r. for_loop_ret 0 nc superhurdle_step (0, cs) = Some (Inl r) \<and> ?Q r)"
  proof (rule for_loop_ret_total[where I = ?I and Q = ?Q, OF _ nc])
    show "?I 0 (0, cs)" by simp
  next
    fix i t
    assume i: "0 \<le> i" "i < nc" and I: "?I i t"
    obtain nsh c where t: "t = (nsh, c)" by (cases t)
    from I have len: "length c = length cs"
      and nsh: "nsh = int (card {k. int k < i \<and> ?H k})"
      and pass: "\<And>k. int k < i \<Longrightarrow> ?H k \<Longrightarrow> shape_test cs k"
      and c: "\<And>k. c ! k = (if int k < i \<and> ?H k then flag_super (cs ! k) else cs ! k)"
      by (simp_all add: t)
    have ci: "c ! nat i = cs ! nat i" using i by (simp add: c)
    have il: "i < int (length c)" using i ncl len by simp
    have ni: "int (nat i) < nc" using i by simp
    from fields[OF ni] obtain b h l r where
      f: "blocks (cs ! nat i) = Some b" "hurdle (cs ! nat i) = Some h"
         "left (cs ! nat i) = Some l" "right (cs ! nat i) = Some r"
         "- 1 \<le> l" "l < nc" by blast
    have step_ix: "\<And>k. (int k < i + 1) = (int k < i \<or> k = nat i)" using i by auto
    show "(\<exists>t'. superhurdle_step i t = Some (Inr t') \<and> ?I (i + 1) t')
        \<or> (\<exists>r. superhurdle_step i t = Some (Inl r) \<and> ?Q r)"
    proof (cases "h = 0")
      case True
      have "superhurdle_step i t = Some (Inr (nsh, c))"
        using True i il ci f by (simp add: t superhurdle_step_def fld_Some)
      moreover have "?I (i + 1) (nsh, c)"
      proof -
        have nH: "\<not> ?H (nat i)" using True f by simp
        have "\<And>k. c ! k = (if int k < i + 1 \<and> ?H k then flag_super (cs ! k) else cs ! k)"
          unfolding step_ix using nH by (auto simp: c)
        moreover have "\<And>k. int k < i + 1 \<Longrightarrow> ?H k \<Longrightarrow> shape_test cs k"
          unfolding step_ix using nH pass by auto
        moreover have "nsh = int (card {k. int k < i + 1 \<and> ?H k})"
          using card_upto_step[OF i(1), of ?H] nH nsh by simp
        ultimately show ?thesis using len by simp
      qed
      ultimately show ?thesis by blast
    next
      case hne: False
      then have H: "?H (nat i)" using f by simp
      have test: "shape_test cs (nat i) \<longleftrightarrow>
          l = r \<and> l \<noteq> - 1 \<and> blocks (cs ! nat l) = Some 2
          \<and> (\<exists>hl. hurdle (cs ! nat l) = Some hl \<and> hl AND GREATHURDLE = 0)"
        using f by (auto simp: shape_test_def)
      show ?thesis
      proof (cases "shape_test cs (nat i)")
        case True
        with test obtain hl where
          st: "l = r" "l \<noteq> - 1" "blocks (cs ! nat l) = Some 2"
              "hurdle (cs ! nat l) = Some hl" "hl AND GREATHURDLE = 0" by blast
        have l: "0 \<le> l" "l < int (length c)" using st f ncl len by simp_all
        have bl: "blocks (c ! nat l) = Some 2" using st by (simp add: c)
        have "\<exists>hc. hurdle (c ! nat l) = Some hc \<and> hc AND GREATHURDLE = 0"
          using st by (auto simp: c or_and_flags)
        then obtain hc where hc: "hurdle (c ! nat l) = Some hc" "hc AND GREATHURDLE = 0" by blast
        have "superhurdle_step i t
            = Some (Inr (nsh + 1, c[nat i := (c ! nat i)\<lparr>hurdle := Some (h OR SUPERHURDLE)\<rparr>]))"
          using hne i il ci f st l bl hc
          by (simp add: t superhurdle_step_def fld_Some upd_Some)
        moreover have "?I (i + 1) (nsh + 1, c[nat i := (c ! nat i)\<lparr>hurdle := Some (h OR SUPERHURDLE)\<rparr>])"
        proof -
          have fl: "(c ! nat i)\<lparr>hurdle := Some (h OR SUPERHURDLE)\<rparr> = flag_super (cs ! nat i)"
            using f by (simp add: ci flag_super_def)
          have "\<And>k. (c[nat i := (c ! nat i)\<lparr>hurdle := Some (h OR SUPERHURDLE)\<rparr>]) ! k
              = (if int k < i + 1 \<and> ?H k then flag_super (cs ! k) else cs ! k)"
          proof -
            fix k
            show "(c[nat i := (c ! nat i)\<lparr>hurdle := Some (h OR SUPERHURDLE)\<rparr>]) ! k
              = (if int k < i + 1 \<and> ?H k then flag_super (cs ! k) else cs ! k)"
            proof (cases "k = nat i")
              case k: True
              then show ?thesis using H il i unfolding fl step_ix by simp
            next
              case k: False
              then show ?thesis unfolding step_ix by (simp add: c)
            qed
          qed
          moreover have "\<And>k. int k < i + 1 \<Longrightarrow> ?H k \<Longrightarrow> shape_test cs k"
            unfolding step_ix using True pass by auto
          moreover have "nsh + 1 = int (card {k. int k < i + 1 \<and> ?H k})"
            using card_upto_step[OF i(1), of ?H] H nsh by simp
          ultimately show ?thesis using len by simp
        qed
        ultimately show ?thesis by blast
      next
        case False
        have "superhurdle_step i t = Some (Inl c)"
        proof (cases "l = r \<and> l \<noteq> - 1")
          case lr: False
          then show ?thesis using hne i il ci f
            by (auto simp: t superhurdle_step_def fld_Some)
        next
          case lr: True
          have l: "0 \<le> l" "l < int (length c)" using lr f ncl len by simp_all
          have nl: "int (nat l) < nc" using l f by simp
          from fields[OF nl] obtain bl hl where
            g: "blocks (cs ! nat l) = Some bl" "hurdle (cs ! nat l) = Some hl" by blast
          have bc: "blocks (c ! nat l) = Some bl" using g by (simp add: c)
          have "\<exists>hc. hurdle (c ! nat l) = Some hc \<and> hc AND GREATHURDLE = hl AND GREATHURDLE"
            using g by (auto simp: c or_and_flags)
          then obtain hc where hc: "hurdle (c ! nat l) = Some hc"
            "hc AND GREATHURDLE = hl AND GREATHURDLE" by blast
          have "\<not> (bl = 2 \<and> hl AND GREATHURDLE = 0)" using False test lr g by simp
          then show ?thesis using hne i il ci f lr l bc hc
            by (auto simp: t superhurdle_step_def fld_Some)
        qed
        moreover have "?Q c"
        proof -
          have "\<And>k. c ! k = (if k < nat i \<and> ?H k then flag_super (cs ! k) else cs ! k)"
          proof -
            fix k
            have "(int k < i) = (k < nat i)" using i by auto
            then show "c ! k = (if k < nat i \<and> ?H k then flag_super (cs ! k) else cs ! k)"
              by (simp add: c)
          qed
          moreover have "\<And>k. k < nat i \<Longrightarrow> ?H k \<Longrightarrow> shape_test cs k"
            using pass i by simp
          ultimately show ?thesis using len ni H False by blast
        qed
        ultimately show ?thesis by blast
      qed
    qed
  qed
  then show ?thesis by auto
qed

lemma c_mod_odd: "c_mod (int n) 2 = 1 \<longleftrightarrow> odd n"
proof (cases "n = 0")
  case True
  then show ?thesis by (simp add: c_mod_def)
next
  case False
  then have "sgn (int n) = 1" by simp
  then have "c_mod (int n) 2 = int n mod 2" by (simp add: c_mod_def)
  then show ?thesis by presburger
qed



subsection \<open>Superhurdles and the fortress (C2)\<close>



subsection \<open>calculate\_offset after validation (C9)\<close>

text \<open>The scan of \<^verbatim>\<open>calculate_offset\<close> (lines 10 to 16).\<close>

lemma offset_scan:
  fixes xs :: "int list"
  assumes "\<exists>x \<in> set xs. x = gA \<or> x = - gA"
  shows "\<exists>k. for_loop_ret 0 (int (length xs)) (\<lambda>i (u::unit). do {
            x \<leftarrow> at xs i;
            if x = gA then Some (Inl i)
            else if x = - gA then Some (Inl (i + int (length xs)))
            else Some (Inr ()) }) () = Some (Inl k)
      \<and> 0 \<le> k \<and> k < 2 * int (length xs)
      \<and> ((k < int (length xs) \<and> xs ! nat k = gA)
          \<or> (int (length xs) \<le> k \<and> xs ! nat (k - int (length xs)) = - gA))"
proof -
  let ?n = "int (length xs)"
  let ?body = "\<lambda>i (u::unit). do {
            x \<leftarrow> at xs i;
            if x = gA then Some (Inl i)
            else if x = - gA then Some (Inl (i + ?n))
            else Some (Inr ()) }"
  let ?I = "\<lambda>i (u::unit). \<forall>k. int k < i \<longrightarrow> xs ! k \<noteq> gA \<and> xs ! k \<noteq> - gA"
  let ?Q = "\<lambda>k. 0 \<le> k \<and> k < 2 * ?n
      \<and> ((k < ?n \<and> xs ! nat k = gA) \<or> (?n \<le> k \<and> xs ! nat (k - ?n) = - gA))"
  have "(\<exists>s'. for_loop_ret 0 ?n ?body () = Some (Inr s') \<and> ?I ?n s')
      \<or> (\<exists>r. for_loop_ret 0 ?n ?body () = Some (Inl r) \<and> ?Q r)"
  proof (rule for_loop_ret_total[where I = ?I and Q = ?Q])
    show "?I 0 ()" by simp
    show "0 \<le> ?n" by simp
  next
    fix i and t :: unit
    assume i: "0 \<le> i" "i < ?n" and I: "?I i t"
    have e: "at xs i = Some (xs ! nat i)" using i by (simp add: at_def)
    show "(\<exists>t'. ?body i t = Some (Inr t') \<and> ?I (i + 1) t') \<or> (\<exists>r. ?body i t = Some (Inl r) \<and> ?Q r)"
    proof (cases "xs ! nat i = gA \<or> xs ! nat i = - gA")
      case True
      then show ?thesis using e i by auto
    next
      case False
      have "\<And>k. int k < i + 1 \<Longrightarrow> xs ! k \<noteq> gA \<and> xs ! k \<noteq> - gA"
      proof -
        fix k assume "int k < i + 1"
        then have "int k < i \<or> k = nat i" using i by linarith
        then show "xs ! k \<noteq> gA \<and> xs ! k \<noteq> - gA" using I False by auto
      qed
      then show ?thesis using False e by simp
    qed
  qed
  then show ?thesis
  proof
    assume "\<exists>s'. for_loop_ret 0 ?n ?body () = Some (Inr s') \<and> ?I ?n s'"
    then have a: "\<forall>k. int k < ?n \<longrightarrow> xs ! k \<noteq> gA \<and> xs ! k \<noteq> - gA" by auto
    from assms obtain k where "k < length xs" "xs ! k = gA \<or> xs ! k = - gA"
      by (auto simp: in_set_conv_nth)
    with a show ?thesis by auto
  next
    assume "\<exists>r. for_loop_ret 0 ?n ?body () = Some (Inl r) \<and> ?Q r"
    then show ?thesis by blast
  qed
qed

lemma calculate_offset_found:
  assumes ne: "pi a \<noteq> []" and ex: "\<exists>x \<in> set (pi b). \<bar>x\<bar> = \<bar>hd (pi a)\<bar>"
  shows "\<exists>off. calculate_offset (a # as) (b # bs) = Some off \<and> off \<noteq> ERR_CONTENT
       \<and> 0 \<le> off \<and> off < 2 * len b
       \<and> ((off < len b \<and> pi b ! nat off = hd (pi a))
          \<or> (len b \<le> off \<and> pi b ! nat (off - len b) = - hd (pi a)))"
proof -
  from ne obtain gA rest where a: "pi a = gA # rest" by (cases "pi a") auto
  from ex a obtain x where x: "x \<in> set (pi b)" "\<bar>x\<bar> = \<bar>gA\<bar>" by auto
  from x(2) have "x = gA \<or> x = - gA" by linarith
  with x(1) have "\<exists>x \<in> set (pi b). x = gA \<or> x = - gA" by blast
  from offset_scan[OF this] obtain k where
    k: "for_loop_ret 0 (int (length (pi b))) (\<lambda>i (u::unit). do {
            x \<leftarrow> at (pi b) i;
            if x = gA then Some (Inl i)
            else if x = - gA then Some (Inl (i + int (length (pi b))))
            else Some (Inr ()) }) () = Some (Inl k)"
    and p: "0 \<le> k" "k < 2 * int (length (pi b))"
      "(k < int (length (pi b)) \<and> pi b ! nat k = gA)
          \<or> (int (length (pi b)) \<le> k \<and> pi b ! nat (k - int (length (pi b))) = - gA)"
    by blast
  have "calculate_offset (a # as) (b # bs) = Some k"
    using k by (simp add: calculate_offset_def a len_def)
  then show ?thesis using p a by (auto simp: len_def ERR_CONTENT_def)
qed

lemma first_gene_present:
  assumes ne: "pi a \<noteq> []" and m: "mset (map abs (pi a)) = mset (map abs (pi b))"
  shows "\<exists>x \<in> set (pi b). \<bar>x\<bar> = \<bar>hd (pi a)\<bar>"
proof -
  have "\<bar>hd (pi a)\<bar> \<in> set (map abs (pi a))" using ne by simp
  then have "\<bar>hd (pi a)\<bar> \<in> set (map abs (pi b))" using m by (metis mset_eq_setD)
  then show ?thesis by auto
qed

text \<open>
  C9. For two genomes whose genes are \<^verbatim>\<open>short\<close>s and that have passed the validation
  of \<^verbatim>\<open>_inversions\<close> (\<^verbatim>\<open>duplicates\<close> false on both, which makes both non-empty, and
  \<^verbatim>\<open>unequal_content\<close> false), \<^verbatim>\<open>calculate_offset\<close> finds the first gene of the one
  genome, or its negation, in the other, in either order of the arguments: it returns
  the index of the first match, plus the length when the negation matched, never
  \<^verbatim>\<open>ERR_CONTENT\<close>, and \<^verbatim>\<open>invdist_circular\<close> passes this offset on.
\<close>

theorem offset_found:
  assumes wf: "wf_genome a" "wf_genome b"
    and da: "duplicates (a # as) = Some False" and db: "duplicates (b # bs) = Some False"
    and uc: "unequal_content (a # as) (b # bs) = Some False"
  shows "(\<exists>off. calculate_offset (a # as) (b # bs) = Some off \<and> off \<noteq> ERR_CONTENT
            \<and> 0 \<le> off \<and> off < 2 * len b
            \<and> ((off < len b \<and> pi b ! nat off = hd (pi a))
                \<or> (len b \<le> off \<and> pi b ! nat (off - len b) = - hd (pi a)))
            \<and> invdist_circular (a # as) (b # bs) = invdist_noncircular (a # as) (b # bs) off)
       \<and> (\<exists>off. calculate_offset (b # bs) (a # as) = Some off \<and> off \<noteq> ERR_CONTENT
            \<and> 0 \<le> off \<and> off < 2 * len a
            \<and> ((off < len a \<and> pi a ! nat off = hd (pi b))
                \<or> (len a \<le> off \<and> pi a ! nat (off - len a) = - hd (pi b)))
            \<and> invdist_circular (b # bs) (a # as) = invdist_noncircular (b # bs) (a # as) off)"
proof -
  have na: "pi a \<noteq> []" using da duplicates_empty[of a as] by auto
  have nb: "pi b \<noteq> []" using db duplicates_empty[of b bs] by auto
  have m: "mset (map abs (pi a)) = mset (map abs (pi b))"
    using uc unequal_content_wf[OF wf, of as bs] by simp
  from calculate_offset_found[OF na first_gene_present[OF na m], of as bs]
  obtain off where 1: "calculate_offset (a # as) (b # bs) = Some off" "off \<noteq> ERR_CONTENT"
       "0 \<le> off" "off < 2 * len b"
       "(off < len b \<and> pi b ! nat off = hd (pi a))
          \<or> (len b \<le> off \<and> pi b ! nat (off - len b) = - hd (pi a))" by blast
  from calculate_offset_found[OF nb first_gene_present[OF nb m[symmetric]], of bs as]
  obtain off' where 2: "calculate_offset (b # bs) (a # as) = Some off'" "off' \<noteq> ERR_CONTENT"
       "0 \<le> off'" "off' < 2 * len a"
       "(off' < len a \<and> pi a ! nat off' = hd (pi b))
          \<or> (len a \<le> off' \<and> pi a ! nat (off' - len a) = - hd (pi b))" by blast
  have 3: "invdist_circular (a # as) (b # bs) = invdist_noncircular (a # as) (b # bs) off"
    by (simp add: invdist_circular_def 1)
  have 4: "invdist_circular (b # bs) (a # as) = invdist_noncircular (b # bs) (a # as) off'"
    by (simp add: invdist_circular_def 2)
  show ?thesis
    by (intro conjI exI[of _ off] exI[of _ off']) (rule 1 2 3 4)+
qed

theorem offset_found_witness:
  "wf_genome genome_c123 \<and> wf_genome genome_c3m12
   \<and> duplicates [genome_c123] = Some False \<and> duplicates [genome_c3m12] = Some False
   \<and> unequal_content [genome_c123] [genome_c3m12] = Some False
   \<and> calculate_offset [genome_c123] [genome_c3m12] = Some 4
   \<and> calculate_offset [genome_c3m12] [genome_c123] = Some 2
   \<and> (\<exists>off. calculate_offset [genome_c123] [genome_c3m12] = Some off \<and> off \<noteq> ERR_CONTENT
            \<and> 0 \<le> off \<and> off < 2 * len genome_c3m12
            \<and> ((off < len genome_c3m12 \<and> pi genome_c3m12 ! nat off = hd (pi genome_c123))
                \<or> (len genome_c3m12 \<le> off
                    \<and> pi genome_c3m12 ! nat (off - len genome_c3m12) = - hd (pi genome_c123)))
            \<and> invdist_circular [genome_c123] [genome_c3m12]
                = invdist_noncircular [genome_c123] [genome_c3m12] off)
   \<and> (\<exists>off. calculate_offset [genome_c3m12] [genome_c123] = Some off \<and> off \<noteq> ERR_CONTENT
            \<and> 0 \<le> off \<and> off < 2 * len genome_c123
            \<and> ((off < len genome_c123 \<and> pi genome_c123 ! nat off = hd (pi genome_c3m12))
                \<or> (len genome_c123 \<le> off
                    \<and> pi genome_c123 ! nat (off - len genome_c123) = - hd (pi genome_c3m12)))
            \<and> invdist_circular [genome_c3m12] [genome_c123]
                = invdist_noncircular [genome_c3m12] [genome_c123] off)"
proof -
  have w1: "wf_genome genome_c123"
    by (simp add: wf_genome_def genome_c123_def short_range_def len_def)
  have w2: "wf_genome genome_c3m12"
    by (simp add: wf_genome_def genome_c3m12_def short_range_def len_def)
  have d1: "duplicates [genome_c123] = Some False" by code_simp
  have d2: "duplicates [genome_c3m12] = Some False" by code_simp
  have u: "unequal_content [genome_c123] [genome_c3m12] = Some False" by code_simp
  have o1: "calculate_offset [genome_c123] [genome_c3m12] = Some 4" by code_simp
  have o2: "calculate_offset [genome_c3m12] [genome_c123] = Some 2" by code_simp
  from offset_found[OF w1 w2 d1 d2 u] show ?thesis
    using w1 w2 d1 d2 u o1 o2 by blast
qed

section \<open>The extended permutation\<close>

lemma signed_perm_nth:
  assumes "signed_perm xs" and "0 \<le> j" and "j < int (length xs)"
  shows "1 \<le> \<bar>xs ! nat j\<bar>" and "\<bar>xs ! nat j\<bar> \<le> int (length xs)"
  using assms by (auto simp: signed_perm_def)

lemma signed_perm_inj:
  assumes "signed_perm xs" and "0 \<le> j" and "j < int (length xs)" and "0 \<le> k" and "k < int (length xs)"
    and "\<bar>xs ! nat j\<bar> = \<bar>xs ! nat k\<bar>"
  shows "j = k"
proof -
  have d: "distinct (map abs xs)" using assms(1) by (simp add: signed_perm_def)
  have jk: "nat j < length (map abs xs)" "nat k < length (map abs xs)" using assms by simp_all
  have "map abs xs ! nat j = map abs xs ! nat k" using assms by simp
  then have "nat j = nat k" using nth_eq_iff_index_eq[OF d jk] by simp
  then show ?thesis using assms by simp
qed

text \<open>The first loop of \<^verbatim>\<open>invdist_noncircular\<close> (lines 453 to 467).\<close>

lemma perm1_loop:
  assumes sp: "signed_perm xs" and n: "n = int (length xs)"
    and len: "int (length (perm1 dm)) = 2 * n + 2" and a: "pi a = xs"
  shows "\<exists>b1. for_loop 0 n 1 (perm1_step (a # as)) dm = Some (dm\<lparr>perm1 := b1\<rparr>)
     \<and> length b1 = length (perm1 dm)
     \<and> (\<forall>j. 0 \<le> j \<and> j < n \<longrightarrow>
           rd b1 (2 * \<bar>xs ! nat j\<bar> - 1) = Some (if xs ! nat j > 0 then 2 * j + 1 else 2 * j + 2)
         \<and> rd b1 (2 * \<bar>xs ! nat j\<bar>) = Some (if xs ! nat j > 0 then 2 * j + 2 else 2 * j + 1))"
proof -
  let ?P = "\<lambda>b1 j. rd b1 (2 * \<bar>xs ! nat j\<bar> - 1) = Some (if xs ! nat j > 0 then 2 * j + 1 else 2 * j + 2)
         \<and> rd b1 (2 * \<bar>xs ! nat j\<bar>) = Some (if xs ! nat j > 0 then 2 * j + 2 else 2 * j + 1)"
  let ?I = "\<lambda>i d. \<exists>b1. d = dm\<lparr>perm1 := b1\<rparr> \<and> length b1 = length (perm1 dm)
     \<and> (\<forall>j. 0 \<le> j \<and> j < i \<longrightarrow> ?P b1 j)"
  have "\<exists>s'. for_loop 0 n 1 (perm1_step (a # as)) dm = Some s' \<and> ?I n s'"
  proof (rule for_loop_total[where I = ?I])
    show "?I 0 dm" by (intro exI[of _ "perm1 dm"]) auto
    show "0 \<le> n" using n by simp
  next
    fix i t
    assume i: "0 \<le> i" "i < n" and I: "?I i t"
    then obtain b1 where t: "t = dm\<lparr>perm1 := b1\<rparr>" and l: "length b1 = length (perm1 dm)"
      and P: "\<And>j. 0 \<le> j \<Longrightarrow> j < i \<Longrightarrow> ?P b1 j" by blast
    define x where "x = xs ! nat i"
    have il: "i < int (length xs)" using i n by simp
    have x1: "1 \<le> \<bar>x\<bar>" "\<bar>x\<bar> \<le> n"
      using signed_perm_nth[OF sp i(1) il] n by (simp_all add: x_def)
    have ax: "at (pi a) i = Some x" using i il a by (simp add: at_Some x_def)
    have lb: "int (length b1) = 2 * n + 2" using l len by simp
    define b2 where "b2 = (if x > 0 then put (put b1 (2 * x - 1) (2 * i + 1)) (2 * x) (2 * i + 1 + 1)
                           else put (put b1 (- (2 * x)) (2 * i + 1)) (- (2 * x) - 1) (2 * i + 1 + 1))"
    have st: "perm1_step (a # as) i t = Some (dm\<lparr>perm1 := b2\<rparr>)"
      using x1 lb ax unfolding perm1_step_def t b2_def Let_def
      by (auto simp: wr_put simp del: add_2_eq_Suc' one_add_one)
    have l2: "length b2 = length (perm1 dm)" using l by (simp add: b2_def)
    have new: "?P b2 i"
      using x1 lb by (auto simp: b2_def rd_put x_def[symmetric])
    have old: "\<And>j. 0 \<le> j \<Longrightarrow> j < i \<Longrightarrow> ?P b2 j"
    proof -
      fix j assume j: "0 \<le> j" "j < i"
      have jl: "j < int (length xs)" using j il by simp
      have "\<bar>xs ! nat j\<bar> \<noteq> \<bar>x\<bar>"
        using signed_perm_inj[OF sp j(1) jl i(1) il] j by (auto simp: x_def)
      then have "rd b2 (2 * \<bar>xs ! nat j\<bar> - 1) = rd b1 (2 * \<bar>xs ! nat j\<bar> - 1)"
        "rd b2 (2 * \<bar>xs ! nat j\<bar>) = rd b1 (2 * \<bar>xs ! nat j\<bar>)"
        by (auto simp: b2_def rd_put)
      then show "?P b2 j" using P[OF j] by simp
    qed
    have "\<And>j. 0 \<le> j \<Longrightarrow> j < i + 1 \<Longrightarrow> ?P b2 j"
    proof -
      fix j assume "0 \<le> j" "j < i + 1"
      then have "j < i \<or> j = i" by linarith
      then show "?P b2 j" using old new \<open>0 \<le> j\<close> by blast
    qed
    then have "?I (i + 1) (dm\<lparr>perm1 := b2\<rparr>)" using l2 by blast
    then show "\<exists>t'. perm1_step (a # as) i t = Some t' \<and> ?I (i + 1) t'" using st by blast
  qed
  then show ?thesis by blast
qed

lemma signed_perm_surj:
  assumes sp: "signed_perm xs" and m: "1 \<le> m" "m \<le> int (length xs)"
  shows "\<exists>j. 0 \<le> j \<and> j < int (length xs) \<and> \<bar>xs ! nat j\<bar> = m"
proof -
  have d: "distinct (map abs xs)" using sp by (simp add: signed_perm_def)
  have sub: "set (map abs xs) \<subseteq> {1..int (length xs)}"
    using sp by (auto simp: signed_perm_def)
  have "card (set (map abs xs)) = length xs" using d distinct_card by fastforce
  then have "card (set (map abs xs)) = card {1..int (length xs)}" by simp
  with sub have "set (map abs xs) = {1..int (length xs)}"
    by (simp add: card_subset_eq)
  with m have "m \<in> set (map abs xs)" by simp
  then obtain k where "k < length xs" "\<bar>xs ! k\<bar> = m"
    by (auto simp: in_set_conv_nth)
  then show ?thesis by (intro exI[of _ "int k"]) simp
qed

lemma gseq_props:
  assumes sp: "signed_perm ys" and n: "n = int (length ys)" and off: "0 \<le> off" "off < 2 * n"
    and i: "0 \<le> i" "i < n"
  shows "1 \<le> \<bar>gseq ys n off i\<bar>" and "\<bar>gseq ys n off i\<bar> \<le> n"
proof -
  have np: "0 < n" using i by simp
  define k where "k = (if off < n then (off + i) mod n else (off - i) mod n)"
  have k: "0 \<le> k" "k < int (length ys)" using np n by (simp_all add: k_def)
  have g: "\<bar>gseq ys n off i\<bar> = \<bar>ys ! nat k\<bar>" by (simp add: gseq_def k_def)
  show "1 \<le> \<bar>gseq ys n off i\<bar>" "\<bar>gseq ys n off i\<bar> \<le> n"
    using signed_perm_nth[OF sp k] n unfolding g by simp_all
qed

lemma gseq_inj:
  assumes sp: "signed_perm ys" and n: "n = int (length ys)" and off: "0 \<le> off" "off < 2 * n"
    and i: "0 \<le> i" "i < n" and j: "0 \<le> j" "j < n"
    and e: "\<bar>gseq ys n off i\<bar> = \<bar>gseq ys n off j\<bar>"
  shows "i = j"
proof -
  have np: "0 < n" using i by simp
  define k where "k = (\<lambda>i. if off < n then (off + i) mod n else (off - i) mod n)"
  have k: "\<And>i. 0 \<le> k i" "\<And>i. k i < int (length ys)" using np n by (simp_all add: k_def)
  have g: "\<And>i. \<bar>gseq ys n off i\<bar> = \<bar>ys ! nat (k i)\<bar>" by (simp add: gseq_def k_def)
  from e have "\<bar>ys ! nat (k i)\<bar> = \<bar>ys ! nat (k j)\<bar>" by (simp add: g)
  from signed_perm_inj[OF sp k(1) k(2) k(1) k(2) this] have kk: "k i = k j" .
  show ?thesis
  proof (cases "off < n")
    case True
    then have "(off + i) mod n = (off + j) mod n" using kk by (simp add: k_def)
    then have "n dvd (off + i) - (off + j)" by (simp add: mod_eq_dvd_iff)
    then have "n dvd i - j" by simp
    moreover have "\<bar>i - j\<bar> < n" using i j by linarith
    ultimately show ?thesis using dvd_imp_le_int[of "i - j" n] by (cases "i - j = 0") auto
  next
    case False
    then have "(off - i) mod n = (off - j) mod n" using kk by (simp add: k_def)
    then have "n dvd (off - i) - (off - j)" by (simp add: mod_eq_dvd_iff)
    then have "n dvd j - i" by simp
    moreover have "\<bar>j - i\<bar> < n" using i j by linarith
    ultimately show ?thesis using dvd_imp_le_int[of "j - i" n] by (cases "j - i = 0") auto
  qed
qed

text \<open>The second loop (lines 469 to 488).\<close>

lemma perm2_loop:
  assumes sp: "signed_perm ys" and n: "n = int (length ys)" and off: "0 \<le> off" "off < 2 * n"
    and len: "int (length (perm2 dm)) = 2 * n + 2" and b: "pi b = ys"
  shows "\<exists>b2. for_loop 0 n 1 (perm2_step (b # bs) n off) dm = Some (dm\<lparr>perm2 := b2\<rparr>)
     \<and> length b2 = length (perm2 dm)
     \<and> (\<forall>j. 0 \<le> j \<and> j < n \<longrightarrow>
           rd b2 (2 * j + 1) = Some (if gseq ys n off j > 0 then 2 * gseq ys n off j - 1
                                     else - 2 * gseq ys n off j)
         \<and> rd b2 (2 * j + 2) = Some (if gseq ys n off j > 0 then 2 * gseq ys n off j
                                     else - 2 * gseq ys n off j - 1))"
proof -
  let ?g = "gseq ys n off"
  let ?P = "\<lambda>b2 j. rd b2 (2 * j + 1) = Some (if ?g j > 0 then 2 * ?g j - 1 else - 2 * ?g j)
         \<and> rd b2 (2 * j + 2) = Some (if ?g j > 0 then 2 * ?g j else - 2 * ?g j - 1)"
  let ?I = "\<lambda>i d. \<exists>b2. d = dm\<lparr>perm2 := b2\<rparr> \<and> length b2 = length (perm2 dm)
     \<and> (\<forall>j. 0 \<le> j \<and> j < i \<longrightarrow> ?P b2 j)"
  have "\<exists>s'. for_loop 0 n 1 (perm2_step (b # bs) n off) dm = Some s' \<and> ?I n s'"
  proof (rule for_loop_total[where I = ?I])
    show "?I 0 dm" by (intro exI[of _ "perm2 dm"]) auto
    show "0 \<le> n" using n by simp
  next
    fix i t
    assume i: "0 \<le> i" "i < n" and I: "?I i t"
    then obtain b1 where t: "t = dm\<lparr>perm2 := b1\<rparr>" and l: "length b1 = length (perm2 dm)"
      and P: "\<And>j. 0 \<le> j \<Longrightarrow> j < i \<Longrightarrow> ?P b1 j" by blast
    have np: "0 < n" using i by simp
    have lb: "int (length b1) = 2 * n + 2" using l len by simp
    have rdg: "(if off < n then at (pi b) (c_mod (off + i) n)
           else do { x \<leftarrow> at (pi b) (c_mod (off - i) n); Some (- x) }) = Some (?g i)"
      using off i np n b by (auto simp: c_mod_nonneg at_Some gseq_def)
    define b2 where "b2 = (if ?g i > 0 then put (put b1 (2 * i + 1) (2 * ?g i - 1)) (2 * i + 1 + 1) (2 * ?g i)
                           else put (put b1 (2 * i + 1) (- 2 * ?g i)) (2 * i + 1 + 1) (- 2 * ?g i - 1))"
    have st: "perm2_step (b # bs) n off i t = Some (dm\<lparr>perm2 := b2\<rparr>)"
      using lb i unfolding perm2_step_def t b2_def Let_def at_0_Cons bind.simps rdg
      by (auto simp: wr_put simp del: add_2_eq_Suc' one_add_one)
    have l2: "length b2 = length (perm2 dm)" using l by (simp add: b2_def)
    have new: "?P b2 i" using lb i by (auto simp: b2_def rd_put)
    have old: "\<And>j. 0 \<le> j \<Longrightarrow> j < i \<Longrightarrow> ?P b2 j"
    proof -
      fix j assume j: "0 \<le> j" "j < i"
      then have "rd b2 (2 * j + 1) = rd b1 (2 * j + 1)" "rd b2 (2 * j + 2) = rd b1 (2 * j + 2)"
        by (auto simp: b2_def rd_put)
      then show "?P b2 j" using P[OF j] by simp
    qed
    have "\<And>j. 0 \<le> j \<Longrightarrow> j < i + 1 \<Longrightarrow> ?P b2 j"
    proof -
      fix j assume "0 \<le> j" "j < i + 1"
      then have "j < i \<or> j = i" by linarith
      then show "?P b2 j" using old new \<open>0 \<le> j\<close> by blast
    qed
    then have "?I (i + 1) (dm\<lparr>perm2 := b2\<rparr>)" using l2 by blast
    then show "\<exists>t'. perm2_step (b # bs) n off i t = Some t' \<and> ?I (i + 1) t'" using st by blast
  qed
  then show ?thesis by blast
qed

text \<open>The composition loop (lines 490 to 493).\<close>

lemma compose_loop:
  assumes c: "\<And>k. 1 \<le> k \<Longrightarrow> k \<le> 2 * n \<Longrightarrow>
                 \<exists>v. rd (perm2 dm) k = Some v \<and> rd (perm1 dm) v = Some (c k)"
    and len: "int (length (perm dm)) = 2 * n + 2" and n: "0 \<le> n"
  shows "\<exists>pb. for_loop 1 (2 * n + 2 - 1) 1 compose_step dm = Some (dm\<lparr>perm := pb\<rparr>)
     \<and> length pb = length (perm dm)
     \<and> (\<forall>k. 1 \<le> k \<and> k \<le> 2 * n \<longrightarrow> rd pb k = Some (c k))
     \<and> (\<forall>k. k < 1 \<or> 2 * n < k \<longrightarrow> rd pb k = rd (perm dm) k)"
proof -
  let ?I = "\<lambda>i d. \<exists>pb. d = dm\<lparr>perm := pb\<rparr> \<and> length pb = length (perm dm)
     \<and> (\<forall>k. 1 \<le> k \<and> k < i \<longrightarrow> rd pb k = Some (c k))
     \<and> (\<forall>k. k < 1 \<or> i \<le> k \<longrightarrow> rd pb k = rd (perm dm) k)"
  have "\<exists>s'. for_loop 1 (2 * n + 2 - 1) 1 compose_step dm = Some s' \<and> ?I (2 * n + 2 - 1) s'"
  proof (rule for_loop_total[where I = ?I])
    show "?I 1 dm" by (intro exI[of _ "perm dm"]) auto
    show "1 \<le> 2 * n + 2 - 1" using n by simp
  next
    fix i t
    assume i: "1 \<le> i" "i < 2 * n + 2 - 1" and I: "?I i t"
    then obtain pb where t: "t = dm\<lparr>perm := pb\<rparr>" and l: "length pb = length (perm dm)"
      and P: "\<And>k. 1 \<le> k \<Longrightarrow> k < i \<Longrightarrow> rd pb k = Some (c k)"
      and Q: "\<And>k. k < 1 \<or> i \<le> k \<Longrightarrow> rd pb k = rd (perm dm) k" by blast
    from c[of i] i obtain v where v: "rd (perm2 dm) i = Some v" "rd (perm1 dm) v = Some (c i)"
      by auto
    have il: "0 \<le> i" "i < int (length pb)" using i l len by simp_all
    have st: "compose_step i t = Some (dm\<lparr>perm := put pb i (c i)\<rparr>)"
      using v il by (simp add: compose_step_def t wr_put)
    have "\<And>k. 1 \<le> k \<Longrightarrow> k < i + 1 \<Longrightarrow> rd (put pb i (c i)) k = Some (c k)"
    proof -
      fix k assume k: "1 \<le> k" "k < i + 1"
      then have "k < i \<or> k = i" by linarith
      then show "rd (put pb i (c i)) k = Some (c k)" using P[OF k(1)] il by (auto simp: rd_put)
    qed
    moreover have "\<And>k. k < 1 \<or> i + 1 \<le> k \<Longrightarrow> rd (put pb i (c i)) k = rd (perm dm) k"
    proof -
      fix k assume k: "k < 1 \<or> i + 1 \<le> k"
      then have "k \<noteq> i" "k < 1 \<or> i \<le> k" using i by auto
      then show "rd (put pb i (c i)) k = rd (perm dm) k" using Q by (simp add: rd_put)
    qed
    ultimately have "?I (i + 1) (dm\<lparr>perm := put pb i (c i)\<rparr>)" using l by auto
    then show "\<exists>t'. compose_step i t = Some t' \<and> ?I (i + 1) t'" using st by blast
  qed
  then obtain pb where r: "for_loop 1 (2 * n + 2 - 1) 1 compose_step dm = Some (dm\<lparr>perm := pb\<rparr>)"
    "length pb = length (perm dm)"
    "\<And>k. 1 \<le> k \<Longrightarrow> k < 2 * n + 2 - 1 \<Longrightarrow> rd pb k = Some (c k)"
    "\<And>k. k < 1 \<or> 2 * n + 2 - 1 \<le> k \<Longrightarrow> rd pb k = rd (perm dm) k" by blast
  show ?thesis
  proof (intro exI[of _ pb] conjI allI impI)
    show "for_loop 1 (2 * n + 2 - 1) 1 compose_step dm = Some (dm\<lparr>perm := pb\<rparr>)" by (rule r)
    show "length pb = length (perm dm)" by (rule r)
  next
    fix k assume "1 \<le> k \<and> k \<le> 2 * n"
    then show "rd pb k = Some (c k)" using r(3)[of k] by simp
  next
    fix k assume "k < 1 \<or> 2 * n < k"
    then show "rd pb k = rd (perm dm) k" using r(4)[of k] by auto
  qed
qed

lemma sized_distmem_struct: "0 \<le> n \<Longrightarrow> sized n (distmem_struct n)"
  by (simp add: sized_def distmem_struct_def)

text \<open>Lines 444 to 494 on two signed permutations of the same length.\<close>

lemma build_perm_post:
  assumes spx: "signed_perm xs" and spy: "signed_perm ys" and ly: "length ys = length xs"
    and n: "n = int (length xs)" and off: "0 \<le> off" "off < 2 * n"
    and a: "pi a = xs" and b: "pi b = ys"
  shows "\<exists>dm. build_perm (a # as) (b # bs) off = Some dm \<and> sized (2 * n + 2) dm
     \<and> rd (perm dm) 0 = Some 0 \<and> rd (perm dm) (2 * n + 1) = Some (2 * n + 1)
     \<and> (\<forall>i. 0 \<le> i \<and> i < n \<longrightarrow> (\<exists>j. 0 \<le> j \<and> j < n \<and> \<bar>xs ! nat j\<bar> = \<bar>gseq ys n off i\<bar>
           \<and> rd (perm dm) (2 * i + 1)
               = Some (if (xs ! nat j > 0) = (gseq ys n off i > 0) then 2 * j + 1 else 2 * j + 2)
           \<and> rd (perm dm) (2 * i + 2)
               = Some (if (xs ! nat j > 0) = (gseq ys n off i > 0) then 2 * j + 2 else 2 * j + 1)))"
proof -
  let ?g = "gseq ys n off"
  let ?sz = "2 * n + 2"
  let ?d0 = "distmem_struct ?sz"
  have n0: "0 \<le> n" using n by simp
  have ny: "n = int (length ys)" using n ly by simp
  have s0: "sized ?sz ?d0" using n0 by (simp add: sized_distmem_struct)
  have l1: "int (length (perm1 ?d0)) = ?sz" using s0 by (simp add: sized_def)
  from perm1_loop[OF spx n l1 a, of as] obtain b1 where
    L1: "for_loop 0 n 1 (perm1_step (a # as)) ?d0 = Some (?d0\<lparr>perm1 := b1\<rparr>)"
    and lb1: "length b1 = length (perm1 ?d0)"
    and P1: "\<And>j. 0 \<le> j \<Longrightarrow> j < n \<Longrightarrow>
           rd b1 (2 * \<bar>xs ! nat j\<bar> - 1) = Some (if xs ! nat j > 0 then 2 * j + 1 else 2 * j + 2)
         \<and> rd b1 (2 * \<bar>xs ! nat j\<bar>) = Some (if xs ! nat j > 0 then 2 * j + 2 else 2 * j + 1)"
    by blast
  let ?d1 = "?d0\<lparr>perm1 := b1\<rparr>"
  have l2: "int (length (perm2 ?d1)) = ?sz" using s0 by (simp add: sized_def)
  from perm2_loop[OF spy ny off l2 b, of bs] obtain b2 where
    L2: "for_loop 0 n 1 (perm2_step (b # bs) n off) ?d1 = Some (?d1\<lparr>perm2 := b2\<rparr>)"
    and lb2: "length b2 = length (perm2 ?d1)"
    and P2: "\<And>j. 0 \<le> j \<Longrightarrow> j < n \<Longrightarrow>
           rd b2 (2 * j + 1) = Some (if ?g j > 0 then 2 * ?g j - 1 else - 2 * ?g j)
         \<and> rd b2 (2 * j + 2) = Some (if ?g j > 0 then 2 * ?g j else - 2 * ?g j - 1)"
    by blast
  let ?p0 = "put (perm ?d0) 0 0"
  let ?d2 = "?d1\<lparr>perm2 := b2, perm := ?p0\<rparr>"
  have lp: "int (length (perm ?d0)) = ?sz" using s0 by (simp add: sized_def)
  have w0: "wr (perm (?d1\<lparr>perm2 := b2\<rparr>)) 0 0 = Some ?p0" using lp n0 by (simp add: wr_put)
  text \<open>the position in \<open>xs\<close> of the gene read at \<open>i\<close>\<close>
  have jex: "\<And>i. 0 \<le> i \<Longrightarrow> i < n \<Longrightarrow> \<exists>j. 0 \<le> j \<and> j < n \<and> \<bar>xs ! nat j\<bar> = \<bar>?g i\<bar>"
  proof -
    fix i assume i: "0 \<le> i" "i < n"
    from gseq_props[OF spy ny off i] have "1 \<le> \<bar>?g i\<bar>" "\<bar>?g i\<bar> \<le> int (length xs)" using n by simp_all
    from signed_perm_surj[OF spx this] show "\<exists>j. 0 \<le> j \<and> j < n \<and> \<bar>xs ! nat j\<bar> = \<bar>?g i\<bar>"
      using n by simp
  qed
  define pos where "pos = (\<lambda>i. SOME j. 0 \<le> j \<and> j < n \<and> \<bar>xs ! nat j\<bar> = \<bar>?g i\<bar>)"
  have pos: "\<And>i. 0 \<le> i \<Longrightarrow> i < n \<Longrightarrow> 0 \<le> pos i \<and> pos i < n \<and> \<bar>xs ! nat (pos i)\<bar> = \<bar>?g i\<bar>"
    unfolding pos_def using someI_ex[OF jex] by blast
  define c where "c = (\<lambda>k. let i = (k - 1) div 2; j = pos i in
      if odd k then (if (xs ! nat j > 0) = (?g i > 0) then 2 * j + 1 else 2 * j + 2)
      else (if (xs ! nat j > 0) = (?g i > 0) then 2 * j + 2 else 2 * j + 1))"
  have comp: "\<And>k. 1 \<le> k \<Longrightarrow> k \<le> 2 * n \<Longrightarrow>
                 \<exists>v. rd (perm2 ?d2) k = Some v \<and> rd (perm1 ?d2) v = Some (c k)"
  proof -
    fix k :: int assume k: "1 \<le> k" "k \<le> 2 * n"
    define i where "i = (k - 1) div 2"
    have i: "0 \<le> i" "i < n" using k by (simp_all add: i_def)
    note pi = pos[OF i]
    have gi: "1 \<le> \<bar>?g i\<bar>" using gseq_props[OF spy ny off i] by simp
    note q1 = P1[of "pos i"] and q2 = P2[OF i]
    show "\<exists>v. rd (perm2 ?d2) k = Some v \<and> rd (perm1 ?d2) v = Some (c k)"
    proof (cases "odd k")
      case True
      then have ke: "k = 2 * i + 1" unfolding i_def by presburger
      show ?thesis using q1 q2 pi gi True
        by (auto simp: ke c_def Let_def abs_if split: if_splits)
    next
      case False
      then have ke: "k = 2 * i + 2" unfolding i_def by presburger
      show ?thesis using q1 q2 pi gi False
        by (auto simp: ke c_def Let_def abs_if split: if_splits)
    qed
  qed
  have lp2: "int (length (perm ?d2)) = 2 * n + 2" using lp by simp
  from compose_loop[of n ?d2 c, OF comp lp2 n0] obtain pb where
    L3: "for_loop 1 (2 * n + 2 - 1) 1 compose_step ?d2 = Some (?d2\<lparr>perm := pb\<rparr>)"
    and lpb: "length pb = length (perm ?d2)"
    and P3: "\<And>k. 1 \<le> k \<Longrightarrow> k \<le> 2 * n \<Longrightarrow> rd pb k = Some (c k)"
    and P4: "\<And>k. k < 1 \<or> 2 * n < k \<Longrightarrow> rd pb k = rd (perm ?d2) k" by blast
  let ?pf = "put pb (?sz - 1) (?sz - 1)"
  let ?d3 = "?d2\<lparr>perm := ?pf\<rparr>"
  have lpb': "int (length pb) = ?sz" using lpb lp by simp
  have w1: "wr pb (?sz - 1) (?sz - 1) = Some ?pf" using lpb' n0 by (simp add: wr_put)
  have res: "build_perm (a # as) (b # bs) off = Some ?d3"
    unfolding build_perm_def Let_def
    using L1 L2 w0 L3 w1 a n by (simp add: len_def)
  have sz3: "sized ?sz ?d3" using s0 lb1 lb2 lpb' by (simp add: sized_def)
  have r0: "rd (perm ?d3) 0 = Some 0"
    using P4[of 0] lp n0 lpb' by (simp add: rd_put)
  have r1: "rd (perm ?d3) (2 * n + 1) = Some (2 * n + 1)"
    using lpb' n0 by (simp add: rd_put)
  have pairs: "\<And>i. 0 \<le> i \<Longrightarrow> i < n \<Longrightarrow> (\<exists>j. 0 \<le> j \<and> j < n \<and> \<bar>xs ! nat j\<bar> = \<bar>?g i\<bar>
           \<and> rd (perm ?d3) (2 * i + 1)
               = Some (if (xs ! nat j > 0) = (?g i > 0) then 2 * j + 1 else 2 * j + 2)
           \<and> rd (perm ?d3) (2 * i + 2)
               = Some (if (xs ! nat j > 0) = (?g i > 0) then 2 * j + 2 else 2 * j + 1))"
  proof -
    fix i assume i: "0 \<le> i" "i < n"
    have e1: "rd (perm ?d3) (2 * i + 1) = Some (c (2 * i + 1))"
      using P3[of "2 * i + 1"] i by (simp add: rd_put)
    have e2: "rd (perm ?d3) (2 * i + 2) = Some (c (2 * i + 2))"
      using P3[of "2 * i + 2"] i by (simp add: rd_put)
    have d1: "(2 * i + 1 - 1) div 2 = i" "(2 * i + 2 - 1) div 2 = i" by simp_all
    show "\<exists>j. 0 \<le> j \<and> j < n \<and> \<bar>xs ! nat j\<bar> = \<bar>?g i\<bar>
           \<and> rd (perm ?d3) (2 * i + 1)
               = Some (if (xs ! nat j > 0) = (?g i > 0) then 2 * j + 1 else 2 * j + 2)
           \<and> rd (perm ?d3) (2 * i + 2)
               = Some (if (xs ! nat j > 0) = (?g i > 0) then 2 * j + 2 else 2 * j + 1)"
      using pos[OF i] unfolding e1 e2
      by (intro exI[of _ "pos i"]) (simp add: c_def Let_def d1)
  qed
  show ?thesis
    using res sz3 r0 r1 pairs by blast
qed

lemma pair_arith:
  fixes u v j :: int
  assumes "(u = 2 * j + 1 \<and> v = 2 * j + 2) \<or> (u = 2 * j + 2 \<and> v = 2 * j + 1)"
  shows "(odd u \<and> v = u + 1) \<or> (even u \<and> v = u - 1)"
  using assms by auto

lemma build_perm_ext:
  assumes spx: "signed_perm xs" and spy: "signed_perm ys" and ly: "length ys = length xs"
    and n: "n = int (length xs)" and off: "0 \<le> off" "off < 2 * n"
    and a: "pi a = xs" and b: "pi b = ys"
  shows "\<exists>dm p. build_perm (a # as) (b # bs) off = Some dm \<and> sized (2 * n + 2) dm
     \<and> repr (2 * n + 2) (perm dm) p \<and> ext_perm (2 * n + 2) p"
proof -
  let ?g = "gseq ys n off"
  let ?sz = "2 * n + 2"
  have ny: "n = int (length ys)" using n ly by simp
  have n1: "1 \<le> n" using spx n by (cases xs) (simp_all add: signed_perm_def)
  from build_perm_post[OF spx spy ly n off a b, of as bs] obtain dm where
    res: "build_perm (a # as) (b # bs) off = Some dm" and sz: "sized ?sz dm"
    and r0: "rd (perm dm) 0 = Some 0" and r1: "rd (perm dm) (2 * n + 1) = Some (2 * n + 1)"
    and pairs: "\<And>i. 0 \<le> i \<Longrightarrow> i < n \<Longrightarrow> (\<exists>j. 0 \<le> j \<and> j < n \<and> \<bar>xs ! nat j\<bar> = \<bar>?g i\<bar>
           \<and> rd (perm dm) (2 * i + 1)
               = Some (if (xs ! nat j > 0) = (?g i > 0) then 2 * j + 1 else 2 * j + 2)
           \<and> rd (perm dm) (2 * i + 2)
               = Some (if (xs ! nat j > 0) = (?g i > 0) then 2 * j + 2 else 2 * j + 1))"
    by blast
  define p where "p = (\<lambda>k. the (rd (perm dm) k))"
  have p0: "p 0 = 0" and p1: "p (2 * n + 1) = 2 * n + 1" using r0 r1 by (simp_all add: p_def)
  text \<open>each pair of positions, with the position \<open>j\<close> of its gene in \<open>xs\<close>\<close>
  have pp: "\<And>i. 0 \<le> i \<Longrightarrow> i < n \<Longrightarrow> \<exists>j. 0 \<le> j \<and> j < n \<and> \<bar>xs ! nat j\<bar> = \<bar>?g i\<bar>
      \<and> rd (perm dm) (2 * i + 1) = Some (p (2 * i + 1))
      \<and> rd (perm dm) (2 * i + 2) = Some (p (2 * i + 2))
      \<and> ((p (2 * i + 1) = 2 * j + 1 \<and> p (2 * i + 2) = 2 * j + 2)
          \<or> (p (2 * i + 1) = 2 * j + 2 \<and> p (2 * i + 2) = 2 * j + 1))"
  proof -
    fix i assume i: "0 \<le> i" "i < n"
    from pairs[OF i] obtain j where j: "0 \<le> j" "j < n" "\<bar>xs ! nat j\<bar> = \<bar>?g i\<bar>"
      "rd (perm dm) (2 * i + 1)
               = Some (if (xs ! nat j > 0) = (?g i > 0) then 2 * j + 1 else 2 * j + 2)"
      "rd (perm dm) (2 * i + 2)
               = Some (if (xs ! nat j > 0) = (?g i > 0) then 2 * j + 2 else 2 * j + 1)" by blast
    show "\<exists>j. 0 \<le> j \<and> j < n \<and> \<bar>xs ! nat j\<bar> = \<bar>?g i\<bar>
      \<and> rd (perm dm) (2 * i + 1) = Some (p (2 * i + 1))
      \<and> rd (perm dm) (2 * i + 2) = Some (p (2 * i + 2))
      \<and> ((p (2 * i + 1) = 2 * j + 1 \<and> p (2 * i + 2) = 2 * j + 2)
          \<or> (p (2 * i + 1) = 2 * j + 2 \<and> p (2 * i + 2) = 2 * j + 1))"
      using j by (intro exI[of _ j]) (simp add: p_def)
  qed
  text \<open>every inner position lies in one pair\<close>
  have inner: "\<And>k. 1 \<le> k \<Longrightarrow> k \<le> 2 * n \<Longrightarrow> \<exists>i j. 0 \<le> i \<and> i < n \<and> 0 \<le> j \<and> j < n
      \<and> \<bar>xs ! nat j\<bar> = \<bar>?g i\<bar> \<and> (k = 2 * i + 1 \<or> k = 2 * i + 2)
      \<and> rd (perm dm) k = Some (p k) \<and> (p k = 2 * j + 1 \<or> p k = 2 * j + 2)"
  proof -
    fix k :: int assume k: "1 \<le> k" "k \<le> 2 * n"
    define i where "i = (k - 1) div 2"
    have i: "0 \<le> i" "i < n" using k by (simp_all add: i_def)
    have ke: "k = 2 * i + 1 \<or> k = 2 * i + 2" unfolding i_def by presburger
    from pp[OF i] obtain j where j: "0 \<le> j" "j < n" "\<bar>xs ! nat j\<bar> = \<bar>?g i\<bar>"
      "rd (perm dm) (2 * i + 1) = Some (p (2 * i + 1))"
      "rd (perm dm) (2 * i + 2) = Some (p (2 * i + 2))"
      "(p (2 * i + 1) = 2 * j + 1 \<and> p (2 * i + 2) = 2 * j + 2)
          \<or> (p (2 * i + 1) = 2 * j + 2 \<and> p (2 * i + 2) = 2 * j + 1)" by blast
    show "\<exists>i j. 0 \<le> i \<and> i < n \<and> 0 \<le> j \<and> j < n
      \<and> \<bar>xs ! nat j\<bar> = \<bar>?g i\<bar> \<and> (k = 2 * i + 1 \<or> k = 2 * i + 2)
      \<and> rd (perm dm) k = Some (p k) \<and> (p k = 2 * j + 1 \<or> p k = 2 * j + 2)"
      using i j ke by (intro exI[of _ i] exI[of _ j]) auto
  qed
  have rep: "repr ?sz (perm dm) p"
    unfolding repr_def
  proof (intro conjI allI impI)
    show "int (length (perm dm)) = ?sz" using sz by (simp add: sized_def)
  next
    fix k assume k: "0 \<le> k \<and> k < ?sz"
    then have "k = 0 \<or> k = 2 * n + 1 \<or> (1 \<le> k \<and> k \<le> 2 * n)" by linarith
    then show "rd (perm dm) k = Some (p k)"
      using r0 r1 p0 p1 inner[of k] by auto
  qed
  have rng: "\<And>k. 1 \<le> k \<Longrightarrow> k \<le> 2 * n \<Longrightarrow> 1 \<le> p k \<and> p k \<le> 2 * n"
  proof -
    fix k :: int assume k: "1 \<le> k" "k \<le> 2 * n"
    from inner[OF k] show "1 \<le> p k \<and> p k \<le> 2 * n" by auto
  qed
  have inj_inner: "\<And>k k'. 1 \<le> k \<Longrightarrow> k \<le> 2 * n \<Longrightarrow> 1 \<le> k' \<Longrightarrow> k' \<le> 2 * n \<Longrightarrow> p k = p k' \<Longrightarrow> k = k'"
  proof -
    fix k k' :: int
    assume k: "1 \<le> k" "k \<le> 2 * n" and k': "1 \<le> k'" "k' \<le> 2 * n" and e: "p k = p k'"
    from inner[OF k] obtain i j where 1: "0 \<le> i" "i < n" "0 \<le> j" "j < n"
      "\<bar>xs ! nat j\<bar> = \<bar>?g i\<bar>" "k = 2 * i + 1 \<or> k = 2 * i + 2" "p k = 2 * j + 1 \<or> p k = 2 * j + 2"
      by blast
    from inner[OF k'] obtain i' j' where 2: "0 \<le> i'" "i' < n" "0 \<le> j'" "j' < n"
      "\<bar>xs ! nat j'\<bar> = \<bar>?g i'\<bar>" "k' = 2 * i' + 1 \<or> k' = 2 * i' + 2"
      "p k' = 2 * j' + 1 \<or> p k' = 2 * j' + 2" by blast
    have "j = j'" using 1(7) 2(7) e by presburger
    then have "\<bar>?g i\<bar> = \<bar>?g i'\<bar>" using 1(5) 2(5) by simp
    from gseq_inj[OF spy ny off 1(1,2) 2(1,2) this] have ii: "i = i'" .
    from pp[OF 1(1,2)] have "p (2 * i + 1) \<noteq> p (2 * i + 2)" by auto
    then show "k = k'" using 1(6) 2(6) ii e by auto
  qed
  have ext: "ext_perm ?sz p"
    unfolding ext_perm_def
  proof (intro conjI allI impI)
    show "4 \<le> ?sz" using n1 by simp
    show "even ?sz" by simp
    show "p 0 = 0" by (rule p0)
    have "?sz - 1 = 2 * n + 1" by simp
    then show "p (?sz - 1) = ?sz - 1" using p1 by (simp only:)
  next
    fix k assume k: "0 \<le> k \<and> k < ?sz"
    then have "k = 0 \<or> k = 2 * n + 1 \<or> (1 \<le> k \<and> k \<le> 2 * n)" by linarith
    then show "0 \<le> p k" "p k < ?sz" using p0 p1 rng[of k] n1 by auto
  next
    fix j k assume h: "0 \<le> j \<and> j < ?sz \<and> 0 \<le> k \<and> k < ?sz \<and> p j = p k"
    then have cj: "j = 0 \<or> j = 2 * n + 1 \<or> (1 \<le> j \<and> j \<le> 2 * n)"
      and ck: "k = 0 \<or> k = 2 * n + 1 \<or> (1 \<le> k \<and> k \<le> 2 * n)" by linarith+
    have e: "p j = p k" using h by simp
    from cj show "j = k"
    proof (elim disjE)
      assume j: "j = 0"
      from ck show ?thesis
      proof (elim disjE)
        assume "k = 0" then show ?thesis using j by simp
      next
        assume "k = 2 * n + 1" then show ?thesis using j e p0 p1 n1 by simp
      next
        assume "1 \<le> k \<and> k \<le> 2 * n"
        then have "1 \<le> p k" using rng[of k] by simp
        then show ?thesis using j e p0 by simp
      qed
    next
      assume j: "j = 2 * n + 1"
      from ck show ?thesis
      proof (elim disjE)
        assume "k = 0" then show ?thesis using j e p0 p1 n1 by simp
      next
        assume "k = 2 * n + 1" then show ?thesis using j by simp
      next
        assume "1 \<le> k \<and> k \<le> 2 * n"
        then have "p k \<le> 2 * n" using rng[of k] by simp
        then show ?thesis using j e p1 by simp
      qed
    next
      assume j: "1 \<le> j \<and> j \<le> 2 * n"
      then have pj: "1 \<le> p j" "p j \<le> 2 * n" using rng[of j] by simp_all
      from ck show ?thesis
      proof (elim disjE)
        assume "k = 0" then show ?thesis using pj e p0 by simp
      next
        assume "k = 2 * n + 1" then show ?thesis using pj e p1 by simp
      next
        assume "1 \<le> k \<and> k \<le> 2 * n"
        then show ?thesis using j e inj_inner[of j k] by simp
      qed
    qed
  next
    fix i assume h: "0 < i \<and> i < ?sz - 1 \<and> odd i"
    define i' where "i' = (i - 1) div 2"
    have i': "0 \<le> i'" "i' < n" using h unfolding i'_def by presburger+
    have f1: "2 * i' + 1 = i" using h unfolding i'_def by presburger
    then have f2: "2 * i' + 2 = i + 1" by simp
    from pp[OF i', unfolded f1 f2] obtain j where
      "(p i = 2 * j + 1 \<and> p (i + 1) = 2 * j + 2) \<or> (p i = 2 * j + 2 \<and> p (i + 1) = 2 * j + 1)"
      by blast
    then show "(odd (p i) \<and> p (i + 1) = p i + 1) \<or> (even (p i) \<and> p (i + 1) = p i - 1)"
      by (rule pair_arith)
  qed
  show ?thesis using res sz rep ext by blast
qed

section \<open>The breakpoint graph\<close>

lemma mate_mate [simp]: "mate (mate v) = v"
  by (simp add: mate_def)

lemma mate_neq [simp]: "mate v \<noteq> v"
  by (simp add: mate_def)

lemma mate_range: "even sz \<Longrightarrow> 0 \<le> v \<Longrightarrow> v < sz \<Longrightarrow> 0 \<le> mate v \<and> mate v < sz"
  unfolding mate_def by presburger

lemma mate_odd: "odd v \<Longrightarrow> mate v = v - 1" and mate_even: "even v \<Longrightarrow> mate v = v + 1"
  by (simp_all add: mate_def)

lemma c_mod_2_even: "0 \<le> v \<Longrightarrow> (c_mod v 2 = 0) = even v"
  by (simp add: c_mod_nonneg even_iff_mod_2_eq_zero)

lemma ext_permD:
  assumes "ext_perm sz p"
  shows "4 \<le> sz" and "even sz" and "p 0 = 0" and "p (sz - 1) = sz - 1"
    and "\<And>k. 0 \<le> k \<Longrightarrow> k < sz \<Longrightarrow> 0 \<le> p k \<and> p k < sz"
    and "\<And>j k. 0 \<le> j \<Longrightarrow> j < sz \<Longrightarrow> 0 \<le> k \<Longrightarrow> k < sz \<Longrightarrow> p j = p k \<Longrightarrow> j = k"
    and "\<And>i. 0 < i \<Longrightarrow> i < sz - 1 \<Longrightarrow> odd i \<Longrightarrow>
           (odd (p i) \<and> p (i + 1) = p i + 1) \<or> (even (p i) \<and> p (i + 1) = p i - 1)"
  using assms unfolding ext_perm_def by blast+

lemma ext_perm_surj:
  assumes e: "ext_perm sz p" and v: "0 \<le> v" "v < sz"
  shows "\<exists>k. 0 \<le> k \<and> k < sz \<and> p k = v"
proof -
  let ?A = "{0..<sz}"
  have inj: "inj_on p ?A" using ext_permD(6)[OF e] by (auto simp: inj_on_def)
  have sub: "p ` ?A \<subseteq> ?A" using ext_permD(5)[OF e] by auto
  have "p ` ?A = ?A" by (rule endo_inj_surj[OF _ sub inj]) simp
  then have "v \<in> p ` ?A" using v by simp
  then show ?thesis by auto
qed

lemma pinv_p:
  assumes e: "ext_perm sz p" and k: "0 \<le> k" "k < sz"
  shows "pinv sz p (p k) = k"
  unfolding pinv_def
proof (rule the_equality)
  show "0 \<le> k \<and> k < sz \<and> p k = p k" using k by simp
next
  fix j assume "0 \<le> j \<and> j < sz \<and> p j = p k"
  then show "j = k" using ext_permD(6)[OF e, of j k] k by simp
qed

lemma p_pinv:
  assumes e: "ext_perm sz p" and v: "0 \<le> v" "v < sz"
  shows "0 \<le> pinv sz p v \<and> pinv sz p v < sz \<and> p (pinv sz p v) = v"
proof -
  from ext_perm_surj[OF e v] obtain k where k: "0 \<le> k" "k < sz" "p k = v" by blast
  then have "pinv sz p v = k" using pinv_p[OF e k(1,2)] by simp
  then show ?thesis using k by simp
qed

lemma ext_perm_mate_p:
  assumes e: "ext_perm sz p" and k: "0 \<le> k" "k < sz"
  shows "0 \<le> mate (p k) \<and> mate (p k) < sz"
  using ext_permD(2)[OF e] ext_permD(5)[OF e k] mate_range[of sz "p k"] by simp

lemma gam_props:
  assumes e: "ext_perm sz p" and k: "0 \<le> k" "k < sz"
  defines "gam \<equiv> \<lambda>k. pinv sz p (mate (p k))"
  shows "0 \<le> gam k \<and> gam k < sz" and "gam (gam k) = k" and "p (gam k) = mate (p k)"
proof -
  note m = ext_perm_mate_p[OF e k]
  note q = p_pinv[OF e m[THEN conjunct1] m[THEN conjunct2]]
  show 1: "0 \<le> gam k \<and> gam k < sz" using q by (simp add: gam_def)
  show 2: "p (gam k) = mate (p k)" using q by (simp add: gam_def)
  show "gam (gam k) = k"
    using 2 pinv_p[OF e k] by (simp add: gam_def)
qed

lemma grey_of_ok:
  assumes e: "ext_perm sz p"
  shows "grey_ok sz (grey_of sz p)"
  unfolding grey_ok_def
proof (intro conjI allI impI)
  show "0 \<le> sz" "even sz" using ext_permD(1,2)[OF e] by simp_all
next
  fix k assume h: "0 \<le> k \<and> k < sz \<and> grey_of sz p k \<noteq> - 1"
  let ?gam = "\<lambda>k. pinv sz p (mate (p k))"
  have ev: "even sz" by (rule ext_permD(2)[OF e])
  have k: "0 \<le> k" "k < sz" using h by simp_all
  have ne: "?gam k \<noteq> mate k" and gk: "grey_of sz p k = ?gam k"
    using h by (auto simp: grey_of_def split: if_splits)
  note g1 = gam_props(1)[OF e k] and g2 = gam_props(2)[OF e k]
  show "0 \<le> grey_of sz p k" "grey_of sz p k < sz" using g1 gk by simp_all
  have ne2: "?gam (?gam k) \<noteq> mate (?gam k)"
  proof
    assume "?gam (?gam k) = mate (?gam k)"
    then have "k = mate (?gam k)" unfolding g2 .
    then have "mate k = mate (mate (?gam k))" by (rule arg_cong)
    then have "mate k = ?gam k" unfolding mate_mate .
    with ne show False by simp
  qed
  then show "grey_of sz p (grey_of sz p k) = k"
    unfolding gk using g2 by (simp add: grey_of_def)
  note mk = mate_range[OF ev k]
  note h1 = gam_props(2)[OF e mk[THEN conjunct1] mk[THEN conjunct2]]
  have "?gam (mate k) \<noteq> mate (mate k)"
  proof
    assume "?gam (mate k) = mate (mate k)"
    then have "?gam (mate k) = k" unfolding mate_mate .
    then have "?gam (?gam (mate k)) = ?gam k" by (rule arg_cong)
    then have "mate k = ?gam k" unfolding h1 .
    with ne show False by simp
  qed
  moreover have "0 \<le> ?gam (mate k)"
    using gam_props(1)[OF e mk[THEN conjunct1] mk[THEN conjunct2]] by simp
  ultimately show "grey_of sz p (mate k) \<noteq> - 1"
    by (simp add: grey_of_def)
  show "grey_of sz p k \<noteq> k"
  proof
    assume "grey_of sz p k = k"
    then have "?gam k = k" by (simp only: gk)
    then have "p (?gam k) = p k" by (rule arg_cong)
    then show False using gam_props(3)[OF e k] mate_neq[of "p k"] by simp
  qed
qed

section \<open>Orientation and the block scan\<close>

text \<open>Lines 280 to 327: the orientation of the vertices and of the components.\<close>

lemma c_mod_2_odd: "0 \<le> v \<Longrightarrow> (c_mod v 2 \<noteq> 0) = odd v"
  by (simp add: c_mod_nonneg odd_iff_mod_2_eq_one)

lemma orient_loop:
  assumes len: "int (length (oriented dm)) = sz"
    and grey: "\<And>i. 0 \<le> i \<Longrightarrow> i < sz \<Longrightarrow> rd (greyEdges dm) i = Some (g i)"
    and sym: "\<And>i. 0 \<le> i \<Longrightarrow> i < sz \<Longrightarrow> g i \<noteq> - 1 \<Longrightarrow> 0 \<le> g i \<and> g i < sz \<and> g i \<noteq> i \<and> g (g i) = i"
    and sz: "0 \<le> sz"
  shows "\<exists>ov. for_loop 0 sz 1 orient_step dm = Some (dm\<lparr>oriented := ov\<rparr>) \<and> int (length ov) = sz
      \<and> (\<forall>i. 0 \<le> i \<and> i < sz \<longrightarrow> rd ov i = Some (if g i \<noteq> - 1 \<and> even (g i - i) then 1 else 0))"
proof -
  let ?o = "\<lambda>i. if g i \<noteq> - 1 \<and> even (g i - i) then 1 else (0::int)"
  let ?I = "\<lambda>i d. \<exists>ov. d = dm\<lparr>oriented := ov\<rparr> \<and> int (length ov) = sz
      \<and> (\<forall>k. 0 \<le> k \<and> k < sz \<and> (k < i \<or> (g k \<noteq> - 1 \<and> g k < i)) \<longrightarrow> rd ov k = Some (?o k))"
  have "\<exists>s'. for_loop 0 sz 1 orient_step dm = Some s' \<and> ?I sz s'"
  proof (rule for_loop_total[where I = ?I, OF _ sz])
    have "\<And>k. 0 \<le> k \<Longrightarrow> k < sz \<Longrightarrow> \<not> (k < 0 \<or> (g k \<noteq> - 1 \<and> g k < 0))"
      using sym by force
    then show "?I 0 dm" using len by (intro exI[of _ "oriented dm"]) auto
  next
    fix i t
    assume i: "0 \<le> i" "i < sz" and I: "?I i t"
    then obtain ov where t: "t = dm\<lparr>oriented := ov\<rparr>" and lo: "int (length ov) = sz"
      and inv: "\<And>k. 0 \<le> k \<Longrightarrow> k < sz \<Longrightarrow> k < i \<or> (g k \<noteq> - 1 \<and> g k < i) \<Longrightarrow> rd ov k = Some (?o k)"
      by blast
    have gi: "rd (greyEdges t) i = Some (g i)" using grey[OF i] by (simp add: t)
    show "\<exists>t'. orient_step i t = Some t' \<and> ?I (i + 1) t'"
    proof (cases "g i = - 1")
      case True
      have st: "orient_step i t = Some (dm\<lparr>oriented := put ov i 0\<rparr>)"
        using gi True i lo by (simp add: orient_step_def wr_put t)
      have "\<And>k. 0 \<le> k \<Longrightarrow> k < sz \<Longrightarrow> k < i + 1 \<or> (g k \<noteq> - 1 \<and> g k < i + 1)
          \<Longrightarrow> rd (put ov i 0) k = Some (?o k)"
      proof -
        fix k assume k: "0 \<le> k" "k < sz" "k < i + 1 \<or> (g k \<noteq> - 1 \<and> g k < i + 1)"
        show "rd (put ov i 0) k = Some (?o k)"
        proof (cases "k = i")
          case True
          then show ?thesis using \<open>g i = - 1\<close> i lo by (simp add: rd_put)
        next
          case False
          have "g k \<noteq> i"
          proof
            assume "g k = i"
            then have "g (g k) = - 1" using True by simp
            moreover have "g k \<noteq> - 1" using \<open>g k = i\<close> i by simp
            ultimately show False using sym[OF k(1,2)] k(1) by simp
          qed
          then have "k < i \<or> (g k \<noteq> - 1 \<and> g k < i)" using k(3) False by auto
          from inv[OF k(1,2) this] show ?thesis using False by (simp add: rd_put)
        qed
      qed
      then have "?I (i + 1) (dm\<lparr>oriented := put ov i 0\<rparr>)" using lo
        by (intro exI[of _ "put ov i 0"]) simp
      with st show ?thesis by blast
    next
      case ne: False
      note s = sym[OF i ne]
      show ?thesis
      proof (cases "i < g i")
        case True
        define v where "v = ?o i"
        have par: "even (g i - i) = even (i - g i)" by presburger
        have vj: "?o (g i) = v" using s ne i par by (simp add: v_def)
        have cm: "(c_mod (g i - i) 2 \<noteq> 0) = odd (g i - i)" using True by (simp add: c_mod_2_odd)
        have st: "orient_step i t = Some (dm\<lparr>oriented := put (put ov i v) (g i) v\<rparr>)"
          using gi ne True i lo s cm by (auto simp: orient_step_def wr_put t v_def)
        have "\<And>k. 0 \<le> k \<Longrightarrow> k < sz \<Longrightarrow> k < i + 1 \<or> (g k \<noteq> - 1 \<and> g k < i + 1)
            \<Longrightarrow> rd (put (put ov i v) (g i) v) k = Some (?o k)"
        proof -
          fix k assume k: "0 \<le> k" "k < sz" "k < i + 1 \<or> (g k \<noteq> - 1 \<and> g k < i + 1)"
          consider "k = i" | "k = g i" | "k \<noteq> i" "k \<noteq> g i" by blast
          then show "rd (put (put ov i v) (g i) v) k = Some (?o k)"
          proof cases
            case 1
            then show ?thesis using i lo s by (simp add: rd_put v_def)
          next
            case 2
            then show ?thesis using i lo s vj by (simp add: rd_put)
          next
            case 3
            have "g k \<noteq> i"
            proof
              assume e: "g k = i"
              then have "g k \<noteq> - 1" using i by simp
              from sym[OF k(1,2) this] e have "g i = k" by simp
              with 3 show False by simp
            qed
            then have "k < i \<or> (g k \<noteq> - 1 \<and> g k < i)" using k(3) 3 by auto
            from inv[OF k(1,2) this] show ?thesis using 3 by (simp add: rd_put)
          qed
        qed
        then have "?I (i + 1) (dm\<lparr>oriented := put (put ov i v) (g i) v\<rparr>)" using lo
          by (intro exI[of _ "put (put ov i v) (g i) v"]) simp
        with st show ?thesis by blast
      next
        case False
        then have lt: "g i < i" using s by simp
        have st: "orient_step i t = Some t"
          using gi ne False by (simp add: orient_step_def)
        have "\<And>k. 0 \<le> k \<Longrightarrow> k < sz \<Longrightarrow> k < i + 1 \<or> (g k \<noteq> - 1 \<and> g k < i + 1)
            \<Longrightarrow> rd ov k = Some (?o k)"
        proof -
          fix k assume k: "0 \<le> k" "k < sz" "k < i + 1 \<or> (g k \<noteq> - 1 \<and> g k < i + 1)"
          show "rd ov k = Some (?o k)"
          proof (cases "k = i")
            case True
            then show ?thesis using inv[OF i] ne lt by simp
          next
            case nk: False
            show ?thesis
            proof (cases "g k = i")
              case True
              then have "g k \<noteq> - 1" using i by simp
              from sym[OF k(1,2) this] True have "k = g i" by simp
              then have "k < i" using lt by simp
              then show ?thesis using inv[OF k(1,2)] by simp
            next
              case False
              then have "k < i \<or> (g k \<noteq> - 1 \<and> g k < i)" using k(3) nk by auto
              from inv[OF k(1,2) this] show ?thesis .
            qed
          qed
        qed
        then have "?I (i + 1) t" using lo t by (intro exI[of _ ov]) simp
        with st show ?thesis by blast
      qed
    qed
  qed
  then obtain ov where r: "for_loop 0 sz 1 orient_step dm = Some (dm\<lparr>oriented := ov\<rparr>)"
    and lo: "int (length ov) = sz"
    and inv: "\<And>k. 0 \<le> k \<Longrightarrow> k < sz \<Longrightarrow> k < sz \<or> (g k \<noteq> - 1 \<and> g k < sz) \<Longrightarrow> rd ov k = Some (?o k)"
    by blast
  have "\<forall>i. 0 \<le> i \<and> i < sz \<longrightarrow> rd ov i = Some (?o i)" using inv by blast
  with r lo show ?thesis by blast
qed

lemma comp_unoriented_loop:
  assumes nc: "0 \<le> nc" "nc \<le> int (length (components dm))"
  shows "\<exists>cs. for_loop 0 nc 1 comp_unoriented_step dm = Some (dm\<lparr>components := cs\<rparr>)
      \<and> length cs = length (components dm)
      \<and> (\<forall>k. cs ! k = (if int k < nc then (components dm ! k)\<lparr>oriented_c := Some 0\<rparr> else components dm ! k))"
proof -
  let ?I = "\<lambda>i d. \<exists>cs. d = dm\<lparr>components := cs\<rparr> \<and> length cs = length (components dm)
      \<and> (\<forall>k. cs ! k = (if int k < i then (components dm ! k)\<lparr>oriented_c := Some 0\<rparr> else components dm ! k))"
  have "\<exists>s'. for_loop 0 nc 1 comp_unoriented_step dm = Some s' \<and> ?I nc s'"
  proof (rule for_loop_total[where I = ?I, OF _ nc(1)])
    show "?I 0 dm" by (intro exI[of _ "components dm"]) simp
  next
    fix i t
    assume i: "0 \<le> i" "i < nc" and I: "?I i t"
    then obtain cs where t: "t = dm\<lparr>components := cs\<rparr>" and len: "length cs = length (components dm)"
      and c: "\<And>k. cs ! k = (if int k < i then (components dm ! k)\<lparr>oriented_c := Some 0\<rparr> else components dm ! k)"
      by blast
    define cs' where "cs' = cs[nat i := (cs ! nat i)\<lparr>oriented_c := Some 0\<rparr>]"
    have st: "comp_unoriented_step i t = Some (dm\<lparr>components := cs'\<rparr>)"
      using i nc len by (simp add: comp_unoriented_step_def upd_Some t cs'_def)
    have "\<And>k. cs' ! k = (if int k < i + 1 then (components dm ! k)\<lparr>oriented_c := Some 0\<rparr> else components dm ! k)"
    proof -
      fix k
      show "cs' ! k = (if int k < i + 1 then (components dm ! k)\<lparr>oriented_c := Some 0\<rparr> else components dm ! k)"
      proof (cases "k = nat i")
        case True
        then show ?thesis using i nc len by (simp add: cs'_def c)
      next
        case False
        then have "int k < i + 1 \<longleftrightarrow> int k < i" using i by auto
        then show ?thesis using False by (simp add: cs'_def c)
      qed
    qed
    then have "?I (i + 1) (dm\<lparr>components := cs'\<rparr>)" using len
      by (intro exI[of _ cs']) (simp add: cs'_def)
    with st show "\<exists>t'. comp_unoriented_step i t = Some t' \<and> ?I (i + 1) t'" by blast
  qed
  then show ?thesis by blast
qed

lemma comp_oriented_loop:
  assumes nc: "0 \<le> nc" "nc \<le> int (length (components dm))" and sz: "0 \<le> sz"
    and ov: "\<And>i. 0 \<le> i \<Longrightarrow> i < sz \<Longrightarrow> rd (oriented dm) i = Some (ov i)"
    and cc: "\<And>i. 0 \<le> i \<Longrightarrow> i < sz \<Longrightarrow> rd (cc dm) i = Some (c i)"
    and rng: "\<And>i. 0 \<le> i \<Longrightarrow> i < sz \<Longrightarrow> ov i = 1 \<Longrightarrow> 0 \<le> c i \<and> c i < nc"
  shows "\<exists>cs. for_loop 0 sz 1 comp_oriented_step dm = Some (dm\<lparr>components := cs\<rparr>)
     \<and> length cs = length (components dm)
     \<and> (\<forall>k. cs ! k = (if (\<exists>i. 0 \<le> i \<and> i < sz \<and> c i = int k \<and> ov i = 1)
                       then (components dm ! k)\<lparr>oriented_c := Some 1\<rparr> else components dm ! k))"
proof -
  let ?E = "\<lambda>i k. \<exists>v. 0 \<le> v \<and> v < i \<and> c v = int k \<and> ov v = 1"
  let ?I = "\<lambda>i d. \<exists>cs. d = dm\<lparr>components := cs\<rparr> \<and> length cs = length (components dm)
     \<and> (\<forall>k. cs ! k = (if ?E i k then (components dm ! k)\<lparr>oriented_c := Some 1\<rparr> else components dm ! k))"
  have "\<exists>s'. for_loop 0 sz 1 comp_oriented_step dm = Some s' \<and> ?I sz s'"
  proof (rule for_loop_total[where I = ?I, OF _ sz])
    show "?I 0 dm" by (intro exI[of _ "components dm"]) auto
  next
    fix i t
    assume i: "0 \<le> i" "i < sz" and I: "?I i t"
    then obtain cs where t: "t = dm\<lparr>components := cs\<rparr>" and len: "length cs = length (components dm)"
      and c: "\<And>k. cs ! k = (if ?E i k then (components dm ! k)\<lparr>oriented_c := Some 1\<rparr> else components dm ! k)"
      by blast
    have r1: "rd (oriented t) i = Some (ov i)" "rd (cc t) i = Some (c i)"
      using ov[OF i] cc[OF i] by (simp_all add: t)
    show "\<exists>t'. comp_oriented_step i t = Some t' \<and> ?I (i + 1) t'"
    proof (cases "ov i = 1")
      case True
      note r = rng[OF i True]
      define k0 where "k0 = nat (c i)"
      define cs' where "cs' = cs[k0 := (cs ! k0)\<lparr>oriented_c := Some 1\<rparr>]"
      have k0: "k0 < length cs" "int k0 = c i" using r nc len by (auto simp: k0_def)
      have st: "comp_oriented_step i t = Some (dm\<lparr>components := cs'\<rparr>)"
        using r1 True r nc len by (simp add: comp_oriented_step_def upd_Some t cs'_def k0_def)
      have "\<And>k. cs' ! k = (if ?E (i + 1) k then (components dm ! k)\<lparr>oriented_c := Some 1\<rparr> else components dm ! k)"
      proof -
        fix k
        show "cs' ! k = (if ?E (i + 1) k then (components dm ! k)\<lparr>oriented_c := Some 1\<rparr> else components dm ! k)"
        proof (cases "k = k0")
          case k: True
          have "?E (i + 1) k" using i True k k0 by (intro exI[of _ i]) simp
          moreover have "cs' ! k = (components dm ! k)\<lparr>oriented_c := Some 1\<rparr>"
            using k k0 by (simp add: cs'_def c)
          ultimately show ?thesis by simp
        next
          case k: False
          have "?E (i + 1) k \<longleftrightarrow> ?E i k"
          proof
            assume "?E (i + 1) k"
            then obtain v where v: "0 \<le> v" "v < i + 1" "c v = int k" "ov v = 1" by blast
            then have "v \<noteq> i" using k k0 by auto
            then show "?E i k" using v by (intro exI[of _ v]) simp
          next
            assume "?E i k"
            then obtain v where v: "0 \<le> v" "v < i" "c v = int k" "ov v = 1" by blast
            then show "?E (i + 1) k" by (intro exI[of _ v]) simp
          qed
          then show ?thesis using k by (simp add: cs'_def c)
        qed
      qed
      then have "?I (i + 1) (dm\<lparr>components := cs'\<rparr>)" using len
        by (intro exI[of _ cs']) (simp add: cs'_def)
      with st show ?thesis by blast
    next
      case False
      have st: "comp_oriented_step i t = Some t"
        using r1 False by (simp add: comp_oriented_step_def)
      have "\<And>k. ?E (i + 1) k \<longleftrightarrow> ?E i k"
      proof
        fix k
        assume "?E (i + 1) k"
        then obtain v where v: "0 \<le> v" "v < i + 1" "c v = int k" "ov v = 1" by blast
        then have "v \<noteq> i" using False by auto
        then show "?E i k" using v by (intro exI[of _ v]) simp
      next
        fix k
        assume "?E i k"
        then obtain v where v: "0 \<le> v" "v < i" "c v = int k" "ov v = 1" by blast
        then show "?E (i + 1) k" by (intro exI[of _ v]) simp
      qed
      then have "?I (i + 1) t" using len t c by (intro exI[of _ cs]) simp
      with st show ?thesis by blast
    qed
  qed
  then show ?thesis by blast
qed

lemma count_loop:
  assumes nc: "0 \<le> nc" "nc \<le> int (length (components dm))"
    and ori: "\<And>k. int k < nc \<Longrightarrow> oriented_c (components dm ! k) \<noteq> None"
  shows "\<exists>n. for_loop 0 nc 1 (count_step dm) 0 = Some n
     \<and> (n = 0 \<longleftrightarrow> (\<forall>k. int k < nc \<longrightarrow> oriented_c (components dm ! k) \<noteq> Some 0))"
proof -
  let ?I = "\<lambda>(i::int) (n::int). 0 \<le> n \<and> (n = 0 \<longleftrightarrow> (\<forall>k. int k < i \<longrightarrow> oriented_c (components dm ! k) \<noteq> Some 0))"
  have "\<exists>s'. for_loop 0 nc 1 (count_step dm) 0 = Some s' \<and> ?I nc s'"
  proof (rule for_loop_total[where I = ?I, OF _ nc(1)])
    show "?I 0 0" by simp
  next
    fix i n
    assume i: "0 \<le> i" "i < nc" and I: "?I i n"
    from ori[of "nat i"] i obtain v where v: "oriented_c (components dm ! nat i) = Some v" by auto
    have st: "count_step dm i n = Some (if v = 0 then n + 1 else n)"
      using i nc v by (simp add: count_step_def fld_Some)
    have split: "\<And>P. (\<forall>k. int k < i + 1 \<longrightarrow> P k) \<longleftrightarrow> (\<forall>k. int k < i \<longrightarrow> P k) \<and> P (nat i)"
    proof -
      fix P :: "nat \<Rightarrow> bool"
      have "\<And>k. int k < i + 1 \<longleftrightarrow> int k < i \<or> k = nat i" using i by auto
      then show "(\<forall>k. int k < i + 1 \<longrightarrow> P k) \<longleftrightarrow> (\<forall>k. int k < i \<longrightarrow> P k) \<and> P (nat i)" by auto
    qed
    have "?I (i + 1) (if v = 0 then n + 1 else n)"
      unfolding split using I v by auto
    with st show "\<exists>t'. count_step dm i n = Some t' \<and> ?I (i + 1) t'" by blast
  qed
  then show ?thesis by blast
qed

lemma comp_init_total:
  assumes nc: "0 \<le> nc" "nc \<le> int (length (components dm))"
  shows "\<exists>dm1. for_loop 0 nc 1 comp_init_step dm = Some dm1"
proof -
  let ?I = "\<lambda>(i::int) (d::distmem). length (components d) = length (components dm)"
  have "\<exists>s'. for_loop 0 nc 1 comp_init_step dm = Some s' \<and> ?I nc s'"
  proof (rule for_loop_total[where I = ?I, OF _ nc(1)])
    show "?I 0 dm" by simp
  next
    fix i t
    assume i: "0 \<le> i" "i < nc" and I: "?I i t"
    then show "\<exists>t'. comp_init_step i t = Some t' \<and> ?I (i + 1) t'"
      using nc by (simp add: comp_init_step_def upd_Some)
  qed
  then show ?thesis by blast
qed

text \<open>The block scan (lines 348 to 375) against the block sequence.\<close>

lemma remdups_adj_snoc:
  "remdups_adj (xs @ [x]) = (if xs \<noteq> [] \<and> last xs = x then remdups_adj xs else remdups_adj xs @ [x])"
proof (cases xs rule: rev_cases)
  case Nil
  then show ?thesis by simp
next
  case (snoc ys y)
  then show ?thesis by (simp add: remdups_adj_append_two)
qed

lemma adjacent_snoc: "R \<noteq> [] \<Longrightarrow> adjacent (R @ [x]) = adjacent R @ [(last R, x)]"
proof (induction R rule: list_nonempty_induct)
  case (single a)
  then show ?case by (simp add: adjacent_def)
next
  case (cons a R)
  then obtain b R' where R: "R = b # R'" by (cases R) auto
  from cons.IH show ?case by (simp add: adjacent_def R)
qed

lemma adjacent_single [simp]: "adjacent [] = []" "adjacent [x] = []"
  by (simp_all add: adjacent_def)

lemma nb_Nil [simp]: "left_nb [] k = - 1" "right_nb [] k = - 1" "left_nb [x] k = - 1" "right_nb [x] k = - 1"
  by (simp_all add: left_nb_def right_nb_def)

lemma left_nb_snoc: "R \<noteq> [] \<Longrightarrow> left_nb (R @ [x]) k = (if k = x then last R else left_nb R k)"
  by (simp add: left_nb_def adjacent_snoc Let_def)

lemma right_nb_snoc: "R \<noteq> [] \<Longrightarrow> right_nb (R @ [x]) k = (if k = last R then x else right_nb R k)"
  by (simp add: right_nb_def adjacent_snoc Let_def)

lemma upto_snoc: "0 \<le> i \<Longrightarrow> [0..i] = [0..i - 1] @ [i]" for i :: int
  by (rule upto_rec2) simp

lemma block_scan_total:
  fixes c :: "int \<Rightarrow> int" and U :: "int \<Rightarrow> bool"
  assumes sz: "0 \<le> sz" and nc: "0 \<le> nc" "nc \<le> int (length cs1)"
    and cc: "\<And>i. 0 \<le> i \<Longrightarrow> i < sz \<Longrightarrow> rd ccb i = Some (c i) \<and> - 1 \<le> c i \<and> c i < nc"
    and ori: "\<And>k. 0 \<le> k \<Longrightarrow> k < nc \<Longrightarrow> oriented_c (cs1 ! nat k) = Some (if U k then 0 else 1)"
    and init: "\<And>k. 0 \<le> k \<Longrightarrow> k < nc \<Longrightarrow> blocks (cs1 ! nat k) = Some 0
          \<and> left (cs1 ! nat k) = Some (- 1) \<and> right (cs1 ! nat k) = Some (- 1)"
  defines "R \<equiv> remdups_adj (filter (\<lambda>k. k \<noteq> - 1 \<and> U k) (map c [0..sz - 1]))"
  shows "\<exists>nb cs. for_loop 0 sz 1 (block_step ccb) (- 1, - 1, - 1, cs1)
        = Some (if R = [] then - 1 else hd R, if R = [] then - 1 else last R, nb, cs)
     \<and> length cs = length cs1
     \<and> (\<forall>k. oriented_c (cs ! k) = oriented_c (cs1 ! k) \<and> hurdle (cs ! k) = hurdle (cs1 ! k)
            \<and> index (cs ! k) = index (cs1 ! k))
     \<and> (\<forall>k. 0 \<le> k \<and> k < nc \<longrightarrow> blocks (cs ! nat k) = Some (int (count_list R k))
            \<and> left (cs ! nat k) = Some (left_nb R k) \<and> right (cs ! nat k) = Some (right_nb R k))"
proof -
  define L where "L = (\<lambda>i. filter (\<lambda>k. k \<noteq> - 1 \<and> U k) (map c [0..i - 1]))"
  let ?I = "\<lambda>i (f, l, nb :: int, cs :: component_t list). length cs = length cs1
     \<and> f = (if L i = [] then - 1 else hd (L i)) \<and> l = (if L i = [] then - 1 else last (L i))
     \<and> (\<forall>k. oriented_c (cs ! k) = oriented_c (cs1 ! k) \<and> hurdle (cs ! k) = hurdle (cs1 ! k)
            \<and> index (cs ! k) = index (cs1 ! k))
     \<and> (\<forall>k. 0 \<le> k \<and> k < nc \<longrightarrow> blocks (cs ! nat k) = Some (int (count_list (remdups_adj (L i)) k))
            \<and> left (cs ! nat k) = Some (left_nb (remdups_adj (L i)) k)
            \<and> right (cs ! nat k) = Some (right_nb (remdups_adj (L i)) k))"
  have L0: "L 0 = []" by (simp add: L_def)
  have Lstep: "\<And>i. 0 \<le> i \<Longrightarrow> L (i + 1) = L i @ (if c i \<noteq> - 1 \<and> U (c i) then [c i] else [])"
    by (simp add: L_def upto_snoc)
  have Lrange: "\<And>i x. i \<le> sz \<Longrightarrow> x \<in> set (L i) \<Longrightarrow> 0 \<le> x \<and> x < nc"
  proof -
    fix i x assume i: "i \<le> sz" and "x \<in> set (L i)"
    then obtain v where v: "0 \<le> v" "v \<le> i - 1" "x = c v" "x \<noteq> - 1" by (auto simp: L_def)
    then show "0 \<le> x \<and> x < nc" using cc[of v] i by auto
  qed
  have "\<exists>s'. for_loop 0 sz 1 (block_step ccb) (- 1, - 1, - 1, cs1) = Some s' \<and> ?I sz s'"
  proof (rule for_loop_total[where I = ?I, OF _ sz])
    show "?I 0 (- 1, - 1, - 1, cs1)" using init by (simp add: L0)
  next
    fix i t
    assume i: "0 \<le> i" "i < sz" and I: "?I i t"
    obtain f l nb cs where t: "t = (f, l, nb, cs)" by (cases t)
    from I have len: "length cs = length cs1"
      and f: "f = (if L i = [] then - 1 else hd (L i))"
      and l: "l = (if L i = [] then - 1 else last (L i))"
      and same: "\<And>k. oriented_c (cs ! k) = oriented_c (cs1 ! k) \<and> hurdle (cs ! k) = hurdle (cs1 ! k)
            \<and> index (cs ! k) = index (cs1 ! k)"
      and fields: "\<And>k. 0 \<le> k \<Longrightarrow> k < nc \<Longrightarrow> blocks (cs ! nat k) = Some (int (count_list (remdups_adj (L i)) k))
            \<and> left (cs ! nat k) = Some (left_nb (remdups_adj (L i)) k)
            \<and> right (cs ! nat k) = Some (right_nb (remdups_adj (L i)) k)"
      by (simp_all add: t)
    note ci = cc[OF i]
    have lr: "L i \<noteq> [] \<Longrightarrow> 0 \<le> l \<and> l < nc"
    proof -
      assume ne: "L i \<noteq> []"
      then have "last (L i) \<in> set (L i)" by simp
      from Lrange[OF _ this] i ne show "0 \<le> l \<and> l < nc" by (simp add: l)
    qed
    have lneg: "L i = [] \<longleftrightarrow> l = - 1" using lr l by auto
    show "\<exists>t'. block_step ccb i t = Some t' \<and> ?I (i + 1) t'"
    proof (cases "c i \<noteq> - 1 \<and> U (c i)")
      case False
      have r: "0 \<le> c i \<Longrightarrow> c i < int (length cs)" using ci nc len by simp
      have st: "block_step ccb i t = Some t"
      proof (cases "c i = - 1")
        case True
        then show ?thesis using ci by (simp add: block_step_def t)
      next
        case ne: False
        then have c0: "0 \<le> c i" "c i < nc" using ci by simp_all
        have "oriented_c (cs ! nat (c i)) = Some 1" using ne False ori[OF c0] same by simp
        then show ?thesis using ci ne r c0 by (simp add: block_step_def t fld_Some)
      qed
      have Leq: "L (i + 1) = L i" using False Lstep[OF i(1)] by auto
      have "?I (i + 1) t" unfolding Leq by (rule I)
      with st show ?thesis by blast
    next
      case True
      then have c0: "0 \<le> c i" "c i < nc" and u: "U (c i)" and ne: "c i \<noteq> - 1" using ci by simp_all
      have r: "c i < int (length cs)" using c0 nc len by simp
      have o0: "oriented_c (cs ! nat (c i)) = Some 0" using u ori[OF c0] same by simp
      have L1: "L (i + 1) = L i @ [c i]" using True Lstep[OF i(1)] by simp
      have hd1: "hd (L (i + 1)) = (if L i = [] then c i else hd (L i))" by (simp add: L1)
      show ?thesis
      proof (cases "c i = l")
        case same_comp: True
        then have Lne: "L i \<noteq> []" using lneg ne by auto
        then have last: "last (L i) = c i" using l same_comp by simp
        have st: "block_step ccb i t = Some t"
          using ci ne r c0 o0 same_comp by (simp add: block_step_def t fld_Some)
        have "remdups_adj (L (i + 1)) = remdups_adj (L i)"
          using Lne last by (simp add: L1 remdups_adj_snoc)
        moreover have "last (L (i + 1)) = last (L i)" using last by (simp add: L1)
        ultimately have "?I (i + 1) t" using I Lne hd1 by (simp add: t L1)
        with st show ?thesis by blast
      next
        case other: False
        define b where "b = int (count_list (remdups_adj (L i)) (c i))"
        have bl: "blocks (cs ! nat (c i)) = Some b" using fields[OF c0] by (simp add: b_def)
        have R1: "remdups_adj (L (i + 1)) = remdups_adj (L i) @ [c i]"
          using other l by (auto simp: L1 remdups_adj_snoc)
        show ?thesis
        proof (cases "L i = []")
          case Nil: True
          then have l1: "l = - 1" using lneg by simp
          define cs' where "cs' = cs[nat (c i) := (cs ! nat (c i))\<lparr>blocks := Some (b + 1)\<rparr>]"
          have st: "block_step ccb i t = Some (c i, c i, nb + 1, cs')"
            using ci ne r c0 o0 other l1 bl
            by (simp add: block_step_def t fld_Some upd_Some cs'_def)
          have nk: "\<And>k. 0 \<le> k \<Longrightarrow> (nat k = nat (c i)) = (k = c i)" using c0 by auto
          have "?I (i + 1) (c i, c i, nb + 1, cs')"
            using len same fields r c0 Nil
            by (auto simp: L1 cs'_def nth_list_update nk b_def)
          with st show ?thesis by blast
        next
          case Cons: False
          note lb = lr[OF Cons]
          have ll: "l < int (length cs)" using lb nc len by simp
          have lastR: "last (remdups_adj (L i)) = l" "remdups_adj (L i) \<noteq> []" using Cons l by simp_all
          define cs' where "cs' = cs[nat l := (cs ! nat l)\<lparr>right := Some (c i)\<rparr>,
             nat (c i) := (cs ! nat (c i))\<lparr>left := Some l, blocks := Some (b + 1)\<rparr>]"
          have nl: "nat l \<noteq> nat (c i)" using other lb c0 by auto
          have rn: "nat (c i) < length cs" "nat l < length cs" using r c0 ll lb by auto
          have st: "block_step ccb i t = Some (f, c i, nb + 1, cs')"
            using ci ne r c0 o0 other Cons lneg bl lb ll nl
            by (simp add: block_step_def t fld_Some upd_Some cs'_def list_update_swap)
          have nk: "\<And>k. 0 \<le> k \<Longrightarrow> (nat k = nat (c i)) = (k = c i)" using c0 by auto
          have nk2: "\<And>k. 0 \<le> k \<Longrightarrow> (nat k = nat l) = (k = l)" using lb by auto
          have nk3: "\<And>k. 0 \<le> k \<Longrightarrow> (nat (c i) = nat k) = (c i = k)" using c0 by auto
          have nk4: "\<And>k. 0 \<le> k \<Longrightarrow> (nat l = nat k) = (l = k)" using lb by auto
          have A: "length cs' = length cs1" using len by (simp add: cs'_def)
          have B: "\<And>k. oriented_c (cs' ! k) = oriented_c (cs1 ! k) \<and> hurdle (cs' ! k) = hurdle (cs1 ! k)
            \<and> index (cs' ! k) = index (cs1 ! k)"
            using same rn by (simp add: cs'_def nth_list_update)
          have C: "\<And>k. 0 \<le> k \<Longrightarrow> k < nc \<Longrightarrow>
              blocks (cs' ! nat k) = Some (int (count_list (remdups_adj (L (i + 1))) k))
            \<and> left (cs' ! nat k) = Some (left_nb (remdups_adj (L (i + 1))) k)
            \<and> right (cs' ! nat k) = Some (right_nb (remdups_adj (L (i + 1))) k)"
          proof -
            fix k assume k: "0 \<le> k" "k < nc"
            have kl: "nat k < length cs" using k nc len by simp
            show "blocks (cs' ! nat k) = Some (int (count_list (remdups_adj (L (i + 1))) k))
              \<and> left (cs' ! nat k) = Some (left_nb (remdups_adj (L (i + 1))) k)
              \<and> right (cs' ! nat k) = Some (right_nb (remdups_adj (L (i + 1))) k)"
              using fields[OF k] kl nl rn other lastR
              by (auto simp: R1 cs'_def nth_list_update nk[OF k(1)] nk2[OF k(1)] nk3[OF k(1)] nk4[OF k(1)]
                    left_nb_snoc right_nb_snoc b_def)
          qed
          have "?I (i + 1) (f, c i, nb + 1, cs')"
            using A B C f Cons by (simp add: L1)
          with st show ?thesis by blast
        qed
      qed
    qed
  qed
  then obtain f l nb cs where r: "for_loop 0 sz 1 (block_step ccb) (- 1, - 1, - 1, cs1) = Some (f, l, nb, cs)"
    and I: "?I sz (f, l, nb, cs)" by auto
  have RL: "R = remdups_adj (L sz)" by (simp add: R_def L_def)
  have e: "(L sz = []) = (R = [])" by (simp add: RL)
  have h: "R \<noteq> [] \<Longrightarrow> hd (L sz) = hd R \<and> last (L sz) = last R" by (simp add: RL)
  have r': "for_loop 0 sz 1 (block_step ccb) (- 1, - 1, - 1, cs1)
        = Some (if R = [] then - 1 else hd R, if R = [] then - 1 else last R, nb, cs)"
    using r I e h by auto
  show ?thesis
    using I r' unfolding RL[symmetric] by (intro exI[of _ nb] exI[of _ cs]) simp
qed

section \<open>Hurdles, superhurdles and the fortress\<close>

lemma card_nat_int:
  "int (card {k::nat. int k < nc \<and> P (int k)}) = int (card {k::int. 0 \<le> k \<and> k < nc \<and> P k})"
proof -
  have "int ` {k::nat. int k < nc \<and> P (int k)} = {k::int. 0 \<le> k \<and> k < nc \<and> P k}"
  proof (intro equalityI subsetI)
    fix x assume "x \<in> int ` {k::nat. int k < nc \<and> P (int k)}"
    then show "x \<in> {k::int. 0 \<le> k \<and> k < nc \<and> P k}" by auto
  next
    fix x assume "x \<in> {k::int. 0 \<le> k \<and> k < nc \<and> P k}"
    then have "x = int (nat x)" "int (nat x) < nc" "P (int (nat x))" by simp_all
    then show "x \<in> int ` {k::nat. int k < nc \<and> P (int k)}" by blast
  qed
  moreover have "card (int ` {k::nat. int k < nc \<and> P (int k)}) = card {k::nat. int k < nc \<and> P (int k)}"
    by (rule card_image) (simp add: inj_on_def)
  ultimately show ?thesis by simp
qed

lemma hurdle_mark_nonzero:
  "hurdle_mark R k \<noteq> 0 \<longleftrightarrow>
     count_list R k = 1 \<or> (R \<noteq> [] \<and> hd R = k \<and> last R = k \<and> count_list R k = 2)"
  by (simp add: hurdle_mark_def HURDLE_GREAT)

lemma hurdle_total_split:
  assumes "R \<noteq> []" and "0 \<le> hd R" and "hd R < nc"
  shows "hurdle_total nc R = int (card {k. 0 \<le> k \<and> k < nc \<and> count_list R k = 1})
           + (if hd R = last R \<and> count_list R (hd R) = 2 then 1 else 0)"
proof -
  let ?A = "{k. 0 \<le> k \<and> k < nc \<and> count_list R k = 1}"
  have fin: "finite ?A" by (rule finite_subset[of _ "{0..<nc}"]) auto
  show ?thesis
  proof (cases "hd R = last R \<and> count_list R (hd R) = 2")
    case True
    from True have e: "last R = hd R" by simp
    from True have c2: "count_list R (hd R) = 2" by (rule conjunct2)
    have "{k \<in> {0..<nc}. hurdle_mark R k \<noteq> 0} = insert (hd R) ?A"
      using c2 assms by (auto simp: hurdle_mark_nonzero e)
    moreover have "hd R \<notin> ?A" using c2 by simp
    ultimately show ?thesis using c2 fin by (simp add: hurdle_total_def e)
  next
    case False
    have "{k \<in> {0..<nc}. hurdle_mark R k \<noteq> 0} = ?A"
      using False by (auto simp: hurdle_mark_nonzero)
    then show ?thesis using False by (simp add: hurdle_total_def)
  qed
qed

text \<open>Lines 378 to 392 against the block sequence.\<close>

lemma mark_phase:
  assumes nc: "0 \<le> nc" "nc \<le> int (length cs)"
    and R: "R \<noteq> []" "set R \<subseteq> {0..<nc}"
    and fields: "\<And>k. 0 \<le> k \<Longrightarrow> k < nc \<Longrightarrow>
          (\<exists>ov. oriented_c (cs ! nat k) = Some ov \<and> (k \<in> set R \<longrightarrow> ov = 0))
          \<and> blocks (cs ! nat k) = Some (int (count_list R k)) \<and> hurdle (cs ! nat k) = Some 0"
  shows "\<exists>cs'. mark_hurdles nc (hd R) (last R) cs = Some (hurdle_total nc R, cs')
     \<and> length cs' = length cs
     \<and> (\<forall>k. cs' ! k = (if int k < nc then (cs ! k)\<lparr>hurdle := Some (hurdle_mark R (int k))\<rparr> else cs ! k))"
proof -
  let ?H = "\<lambda>k. oriented_c (cs ! k) = Some 0 \<and> blocks (cs ! k) = Some 1"
  have fk: "\<And>k. int k < nc \<Longrightarrow>
          (\<exists>ov. oriented_c (cs ! k) = Some ov \<and> (int k \<in> set R \<longrightarrow> ov = 0))
          \<and> blocks (cs ! k) = Some (int (count_list R (int k))) \<and> hurdle (cs ! k) = Some 0"
    using fields[of "int k" for k] by simp
  have init: "\<forall>k. int k < nc \<longrightarrow> oriented_c (cs ! k) \<noteq> None \<and> blocks (cs ! k) \<noteq> None"
    using fk by auto
  from hurdle_loop[OF nc init] obtain c1 where
    l1: "for_loop 0 nc 1 hurdle_step (0, cs) = Some (int (card {k. int k < nc \<and> ?H k}), c1)"
    and len1: "length c1 = length cs"
    and c1: "\<And>k. c1 ! k = (if int k < nc \<and> ?H k then (cs ! k)\<lparr>hurdle := Some HURDLE\<rparr> else cs ! k)"
    by blast
  have Heq: "\<And>k. int k < nc \<Longrightarrow> ?H k \<longleftrightarrow> count_list R (int k) = 1"
  proof -
    fix k assume k: "int k < nc"
    from fk[OF k] obtain ov where ov: "oriented_c (cs ! k) = Some ov" "int k \<in> set R \<longrightarrow> ov = 0"
      and b: "blocks (cs ! k) = Some (int (count_list R (int k)))" by blast
    show "?H k \<longleftrightarrow> count_list R (int k) = 1"
    proof
      assume "?H k" then show "count_list R (int k) = 1" using b by simp
    next
      assume c: "count_list R (int k) = 1"
      then have "int k \<in> set R" using count_list_0_iff[of R "int k"] by auto
      then show "?H k" using ov b c by simp
    qed
  qed
  then have "{k. int k < nc \<and> ?H k} = {k. int k < nc \<and> count_list R (int k) = 1}" by blast
  then have n1: "int (card {k. int k < nc \<and> ?H k}) = int (card {k. 0 \<le> k \<and> k < nc \<and> count_list R k = 1})"
    using card_nat_int[of nc "\<lambda>k. count_list R k = 1"] by simp
  have hdR: "hd R \<in> set R" using R(1) by simp
  then have f: "0 \<le> hd R" "hd R < nc" using R(2) by auto
  have fl: "hd R < int (length c1)" using f nc len1 by simp
  have bf: "blocks (c1 ! nat (hd R)) = Some (int (count_list R (hd R)))"
    using fields[OF f] by (simp add: c1)
  note tot = hurdle_total_split[OF R(1) f]
  have c1': "\<And>k. c1 ! k = (if int k < nc \<and> count_list R (int k) = 1
        then (cs ! k)\<lparr>hurdle := Some HURDLE\<rparr> else cs ! k)"
    using Heq by (auto simp: c1)
  have same: "\<And>k. int k < nc \<Longrightarrow> (cs ! k)\<lparr>hurdle := Some 0\<rparr> = cs ! k"
    using fk by simp
  show ?thesis
  proof (cases "hd R = last R \<and> count_list R (hd R) = 2")
    case True
    from True have e: "last R = hd R" by simp
    from True have cnt: "count_list R (hd R) = 2" by (rule conjunct2)
    define c2 where "c2 = c1[nat (hd R) := (c1 ! nat (hd R))\<lparr>hurdle := Some (HURDLE OR GREATHURDLE)\<rparr>]"
    have tot': "hurdle_total nc R = int (card {k. 0 \<le> k \<and> k < nc \<and> count_list R k = 1}) + 1"
      using tot cnt by (simp add: e)
    have m: "mark_hurdles nc (hd R) (last R) cs = Some (hurdle_total nc R, c2)"
      using f fl bf cnt
      by (simp add: mark_hurdles_def l1 n1 tot' great_hurdle_def fld_Some upd_Some c2_def e)
    have "\<And>k. c2 ! k = (if int k < nc then (cs ! k)\<lparr>hurdle := Some (hurdle_mark R (int k))\<rparr> else cs ! k)"
    proof -
      fix k
      show "c2 ! k = (if int k < nc then (cs ! k)\<lparr>hurdle := Some (hurdle_mark R (int k))\<rparr> else cs ! k)"
      proof (cases "k = nat (hd R)")
        case k: True
        then have ik: "int k = hd R" using f by simp
        have "nat (hd R) < length c1" using fl f by simp
        then show ?thesis using k ik cnt f R(1) by (simp add: c2_def c1' hurdle_mark_def e)
      next
        case k: False
        then have "int k \<noteq> hd R" using f by auto
        then show ?thesis using k same[of k] by (simp add: c2_def c1' hurdle_mark_def)
      qed
    qed
    then show ?thesis using m len1 by (intro exI[of _ c2]) (simp add: c2_def)
  next
    case False
    have tot': "hurdle_total nc R = int (card {k. 0 \<le> k \<and> k < nc \<and> count_list R k = 1})"
      using tot False by simp
    have m: "mark_hurdles nc (hd R) (last R) cs = Some (hurdle_total nc R, c1)"
      using False f fl bf
      by (auto simp: mark_hurdles_def l1 n1 tot' great_hurdle_def fld_Some)
    have "\<And>k. c1 ! k = (if int k < nc then (cs ! k)\<lparr>hurdle := Some (hurdle_mark R (int k))\<rparr> else cs ! k)"
    proof -
      fix k
      show "c1 ! k = (if int k < nc then (cs ! k)\<lparr>hurdle := Some (hurdle_mark R (int k))\<rparr> else cs ! k)"
        using False same[of k] by (auto simp: c1' hurdle_mark_def)
    qed
    then show ?thesis using m len1 by (intro exI[of _ c1]) simp
  qed
qed

lemma adjacent_set: "(a, b) \<in> set (adjacent R) \<Longrightarrow> a \<in> set R \<and> b \<in> set R"
  unfolding adjacent_def by (cases R) (auto dest: set_zip_leftD set_zip_rightD)

lemma left_nb_range: "left_nb R k = - 1 \<or> left_nb R k \<in> set R"
proof (cases "filter (\<lambda>ab. snd ab = k) (adjacent R) = []")
  case True
  then show ?thesis by (simp add: left_nb_def)
next
  case False
  then have "last (filter (\<lambda>ab. snd ab = k) (adjacent R)) \<in> set (filter (\<lambda>ab. snd ab = k) (adjacent R))"
    by (rule last_in_set)
  then have "last (filter (\<lambda>ab. snd ab = k) (adjacent R)) \<in> set (adjacent R)" by simp
  then have "fst (last (filter (\<lambda>ab. snd ab = k) (adjacent R))) \<in> set R"
    using adjacent_set[of "fst (last (filter (\<lambda>ab. snd ab = k) (adjacent R)))"
        "snd (last (filter (\<lambda>ab. snd ab = k) (adjacent R)))" R] by simp
  then show ?thesis using False by (simp add: left_nb_def Let_def)
qed

lemma right_nb_range: "right_nb R k = - 1 \<or> right_nb R k \<in> set R"
proof (cases "filter (\<lambda>ab. fst ab = k) (adjacent R) = []")
  case True
  then show ?thesis by (simp add: right_nb_def)
next
  case False
  then have "last (filter (\<lambda>ab. fst ab = k) (adjacent R)) \<in> set (filter (\<lambda>ab. fst ab = k) (adjacent R))"
    by (rule last_in_set)
  then have "last (filter (\<lambda>ab. fst ab = k) (adjacent R)) \<in> set (adjacent R)" by simp
  then have "snd (last (filter (\<lambda>ab. fst ab = k) (adjacent R))) \<in> set R"
    using adjacent_set[of "fst (last (filter (\<lambda>ab. fst ab = k) (adjacent R)))"
        "snd (last (filter (\<lambda>ab. fst ab = k) (adjacent R)))" R] by simp
  then show ?thesis using False by (simp add: right_nb_def Let_def)
qed

lemma ball_nat_int: "(\<forall>j::nat. int j < nc \<longrightarrow> P (int j)) \<longleftrightarrow> (\<forall>j\<in>{0..<nc}. P j)"
proof
  assume a: "\<forall>j::nat. int j < nc \<longrightarrow> P (int j)"
  show "\<forall>j\<in>{0..<nc}. P j"
  proof
    fix j assume "j \<in> {0..<nc}"
    then have "int (nat j) < nc" "int (nat j) = j" by simp_all
    with a show "P j" by metis
  qed
next
  assume "\<forall>j\<in>{0..<nc}. P j"
  then show "\<forall>j::nat. int j < nc \<longrightarrow> P (int j)" by simp
qed

lemma ball_nat_int_le: "(\<forall>j::nat. j \<le> k \<longrightarrow> P (int j)) \<longleftrightarrow> (\<forall>j\<in>{0..int k}. P j)"
proof
  assume a: "\<forall>j::nat. j \<le> k \<longrightarrow> P (int j)"
  show "\<forall>j\<in>{0..int k}. P j"
  proof
    fix j assume "j \<in> {0..int k}"
    then have "nat j \<le> k" "int (nat j) = j" by auto
    with a show "P j" by metis
  qed
next
  assume "\<forall>j\<in>{0..int k}. P j"
  then show "\<forall>j::nat. j \<le> k \<longrightarrow> P (int j)" by simp
qed

text \<open>Lines 397 to 431 against the block sequence.\<close>

lemma super_phase:
  assumes nc: "0 \<le> nc" "nc \<le> int (length cs)"
    and R: "set R \<subseteq> {0..<nc}"
    and fields: "\<And>k. 0 \<le> k \<Longrightarrow> k < nc \<Longrightarrow>
          blocks (cs ! nat k) = Some (int (count_list R k)) \<and> hurdle (cs ! nat k) = Some (hurdle_mark R k)
          \<and> left (cs ! nat k) = Some (left_nb R k) \<and> right (cs ! nat k) = Some (right_nb R k)"
    and three: "3 \<le> hurdle_total nc R"
  shows "\<exists>cs'. superhurdles nc (hurdle_total nc R) cs = Some (hurdle_total nc R, fortress nc R, cs')
     \<and> length cs' = length cs
     \<and> (\<forall>k. cs' ! k = (if int k < nc then (cs ! k)\<lparr>hurdle := Some (hurdle_flags nc R (int k))\<rparr> else cs ! k))"
proof -
  let ?H = "\<lambda>k. hurdle (cs ! k) \<noteq> Some 0"
  let ?M = "\<lambda>k. hurdle_mark R k \<noteq> 0"
  let ?n = "card {k. int k < nc \<and> ?H k}"
  have fk: "\<And>k. int k < nc \<Longrightarrow>
          blocks (cs ! k) = Some (int (count_list R (int k))) \<and> hurdle (cs ! k) = Some (hurdle_mark R (int k))
          \<and> left (cs ! k) = Some (left_nb R (int k)) \<and> right (cs ! k) = Some (right_nb R (int k))"
    using fields[of "int k" for k] by simp
  have lrng: "\<And>k. - 1 \<le> left_nb R k \<and> left_nb R k < nc"
  proof -
    fix k
    from left_nb_range[of R k] show "- 1 \<le> left_nb R k \<and> left_nb R k < nc"
    proof
      assume "left_nb R k = - 1" then show ?thesis using nc by simp
    next
      assume "left_nb R k \<in> set R" then show ?thesis using R by auto
    qed
  qed
  have rrng: "\<And>k. - 1 \<le> right_nb R k \<and> right_nb R k < nc"
  proof -
    fix k
    from right_nb_range[of R k] show "- 1 \<le> right_nb R k \<and> right_nb R k < nc"
    proof
      assume "right_nb R k = - 1" then show ?thesis using nc by simp
    next
      assume "right_nb R k \<in> set R" then show ?thesis using R by auto
    qed
  qed
  have sc: "scanned nc cs"
    unfolding scanned_def using nc fk lrng rrng by simp
  have Hk: "\<And>k. int k < nc \<Longrightarrow> ?H k \<longleftrightarrow> ?M (int k)" using fk by simp
  have shape: "\<And>k. int k < nc \<Longrightarrow> shape_test cs k \<longleftrightarrow> super_test R (int k)"
  proof -
    fix k assume k: "int k < nc"
    note f = fk[OF k]
    show "shape_test cs k \<longleftrightarrow> super_test R (int k)"
    proof (cases "left_nb R (int k) = - 1")
      case True
      then show ?thesis using f by (simp add: shape_test_def super_test_def)
    next
      case False
      then have l: "0 \<le> left_nb R (int k)" "left_nb R (int k) < nc" using lrng[of "int k"] by simp_all
      from fields[OF l] f show ?thesis by (auto simp: shape_test_def super_test_def)
    qed
  qed
  have "{k. int k < nc \<and> ?H k} = {k. int k < nc \<and> ?M (int k)}" using Hk by blast
  then have "int ?n = int (card {k. 0 \<le> k \<and> k < nc \<and> ?M k})"
    using card_nat_int[of nc ?M] by simp
  also have "{k. 0 \<le> k \<and> k < nc \<and> ?M k} = {k \<in> {0..<nc}. ?M k}" by auto
  finally have n: "int ?n = hurdle_total nc R" by (simp add: hurdle_total_def)
  have allpass: "(\<forall>k. int k < nc \<longrightarrow> ?H k \<longrightarrow> shape_test cs k)
      \<longleftrightarrow> (\<forall>j\<in>{0..<nc}. ?M j \<longrightarrow> super_test R j)"
  proof -
    have "(\<forall>k. int k < nc \<longrightarrow> ?H k \<longrightarrow> shape_test cs k)
        \<longleftrightarrow> (\<forall>k. int k < nc \<longrightarrow> (?M (int k) \<longrightarrow> super_test R (int k)))"
      using Hk shape by blast
    then show ?thesis using ball_nat_int[of nc "\<lambda>j. ?M j \<longrightarrow> super_test R j"] by simp
  qed
  have same: "\<And>k. int k < nc \<Longrightarrow> (cs ! k)\<lparr>hurdle := Some (hurdle_mark R (int k))\<rparr> = cs ! k"
    using fk by simp
  have flag: "\<And>k. int k < nc \<Longrightarrow>
      flag_super (cs ! k) = (cs ! k)\<lparr>hurdle := Some (hurdle_mark R (int k) OR SUPERHURDLE)\<rparr>"
    using fk by (simp add: flag_super_def)
  from superhurdle_loop[OF sc nc(1)] show ?thesis
  proof
    assume "\<exists>c. for_loop_ret 0 nc superhurdle_step (0, cs) = Some (Inr (int ?n, c))
            \<and> length c = length cs
            \<and> (\<forall>k. int k < nc \<longrightarrow> ?H k \<longrightarrow> shape_test cs k)
            \<and> (\<forall>k. c ! k = (if int k < nc \<and> ?H k then flag_super (cs ! k) else cs ! k))"
    then obtain c where l: "for_loop_ret 0 nc superhurdle_step (0, cs) = Some (Inr (int ?n, c))"
      and len: "length c = length cs"
      and pass: "\<forall>k. int k < nc \<longrightarrow> ?H k \<longrightarrow> shape_test cs k"
      and c: "\<And>k. c ! k = (if int k < nc \<and> ?H k then flag_super (cs ! k) else cs ! k)"
      by blast
    from pass allpass have pass': "\<forall>j\<in>{0..<nc}. ?M j \<longrightarrow> super_test R j" by simp
    have odd: "(c_mod (int ?n) 2 = 1) = odd (hurdle_total nc R)"
      unfolding c_mod_odd n[symmetric] by simp
    have f: "fortress nc R = (if odd (hurdle_total nc R) then 1 else 0)"
      using three pass' by (simp add: fortress_def)
    have r: "superhurdles nc (hurdle_total nc R) cs = Some (hurdle_total nc R, fortress nc R, c)"
      using odd by (simp add: superhurdles_def l f n)
    have "\<And>k. c ! k = (if int k < nc then (cs ! k)\<lparr>hurdle := Some (hurdle_flags nc R (int k))\<rparr> else cs ! k)"
    proof -
      fix k
      show "c ! k = (if int k < nc then (cs ! k)\<lparr>hurdle := Some (hurdle_flags nc R (int k))\<rparr> else cs ! k)"
      proof (cases "int k < nc")
        case False
        then show ?thesis by (simp add: c)
      next
        case True
        have "\<forall>j\<in>{0..int k}. ?M j \<longrightarrow> super_test R j" using pass' True by auto
        then have "hurdle_flags nc R (int k) =
            (if ?M (int k) then hurdle_mark R (int k) OR SUPERHURDLE else hurdle_mark R (int k))"
          using three by (simp add: hurdle_flags_def)
        then show ?thesis using True Hk[OF True] flag[OF True] same[OF True] by (simp add: c)
      qed
    qed
    with r len show ?thesis by blast
  next
    assume "\<exists>c i0. for_loop_ret 0 nc superhurdle_step (0, cs) = Some (Inl c)
            \<and> length c = length cs
            \<and> int i0 < nc \<and> ?H i0 \<and> \<not> shape_test cs i0
            \<and> (\<forall>k. k < i0 \<longrightarrow> ?H k \<longrightarrow> shape_test cs k)
            \<and> (\<forall>k. c ! k = (if k < i0 \<and> ?H k then flag_super (cs ! k) else cs ! k))"
    then obtain c i0 where l: "for_loop_ret 0 nc superhurdle_step (0, cs) = Some (Inl c)"
      and len: "length c = length cs"
      and i0: "int i0 < nc" "?H i0" "\<not> shape_test cs i0"
      and pass: "\<And>k. k < i0 \<Longrightarrow> ?H k \<Longrightarrow> shape_test cs k"
      and c: "\<And>k. c ! k = (if k < i0 \<and> ?H k then flag_super (cs ! k) else cs ! k)"
      by blast
    have bad: "?M (int i0)" "\<not> super_test R (int i0)" using i0 Hk shape by simp_all
    have "\<not> (\<forall>j\<in>{0..<nc}. ?M j \<longrightarrow> super_test R j)"
    proof
      assume "\<forall>j\<in>{0..<nc}. ?M j \<longrightarrow> super_test R j"
      from this[rule_format, of "int i0"] bad i0(1) show False by simp
    qed
    then have f: "fortress nc R = 0" by (simp add: fortress_def)
    have r: "superhurdles nc (hurdle_total nc R) cs = Some (hurdle_total nc R, fortress nc R, c)"
      by (simp add: superhurdles_def l f)
    have "\<And>k. c ! k = (if int k < nc then (cs ! k)\<lparr>hurdle := Some (hurdle_flags nc R (int k))\<rparr> else cs ! k)"
    proof -
      fix k
      show "c ! k = (if int k < nc then (cs ! k)\<lparr>hurdle := Some (hurdle_flags nc R (int k))\<rparr> else cs ! k)"
      proof (cases "int k < nc")
        case False
        then have "\<not> k < i0" using i0(1) by simp
        then show ?thesis using False by (simp add: c)
      next
        case True
        have e: "(\<forall>j\<in>{0..int k}. ?M j \<longrightarrow> super_test R j) \<longleftrightarrow> k < i0"
        proof
          assume a: "\<forall>j\<in>{0..int k}. ?M j \<longrightarrow> super_test R j"
          show "k < i0"
          proof (rule ccontr)
            assume "\<not> k < i0"
            then have "int i0 \<in> {0..int k}" by simp
            from a[rule_format, OF this] bad show False by simp
          qed
        next
          assume lt: "k < i0"
          show "\<forall>j\<in>{0..int k}. ?M j \<longrightarrow> super_test R j"
          proof (intro ballI impI)
            fix j assume j: "j \<in> {0..int k}" and m: "?M j"
            then have jn: "nat j < i0" "int (nat j) = j" using lt by auto
            have jl: "int (nat j) < nc" using jn i0(1) by simp
            have "?H (nat j)" using Hk[OF jl] m jn by simp
            from pass[OF jn(1) this] shape[OF jl] jn show "super_test R j" by simp
          qed
        qed
        have "hurdle_flags nc R (int k) =
            (if ?M (int k) \<and> k < i0 then hurdle_mark R (int k) OR SUPERHURDLE else hurdle_mark R (int k))"
          using three e by (simp add: hurdle_flags_def)
        then show ?thesis using True Hk[OF True] flag[OF True] same[OF True] by (auto simp: c)
      qed
    qed
    with r len show ?thesis by blast
  qed
qed

end
